theory Spec2Isabelle
  imports Main "HOL-Library.Word" "HOL-Library.Monad_Syntax" "HOL-Library.Sublist"
begin

unbundle bit_operations_syntax

section \<open>Data model of qoi.h\<close>

type_synonym byte = "8 word"

text \<open>
  \<^verbatim>\<open>typedef struct { unsigned int width; unsigned int height;
                   unsigned char channels; unsigned char colorspace; } qoi_desc;\<close>
\<close>

record qoi_desc =
  width :: "32 word"
  height :: "32 word"
  channels :: byte
  colorspace :: byte

text \<open>
  \<^verbatim>\<open>typedef union { struct { unsigned char r, g, b, a; } rgba; unsigned int v; } qoi_rgba_t;\<close>
  The member \<^verbatim>\<open>v\<close> overlays the four bytes, so \<^verbatim>\<open>x.v == y.v\<close> is equality of
  all four components: equality of the record.
\<close>

record qoi_rgba_t =
  rgba_r :: byte
  rgba_g :: byte
  rgba_b :: byte
  rgba_a :: byte

text \<open>
  Every failure of the C functions is a \<^verbatim>\<open>return NULL\<close>; the model names the failing
  check. \<open>AllocationFailed\<close> is the \<^verbatim>\<open>NULL\<close> of \<^verbatim>\<open>QOI_MALLOC\<close>. The size passed to
  \<^verbatim>\<open>QOI_MALLOC\<close> is an \<^verbatim>\<open>int\<close>, converted to \<^verbatim>\<open>size_t\<close>: the allocation is taken to
  fail when that \<^verbatim>\<open>int\<close> is negative (the converted size is then \<open>2^31\<close> or more, with a
  64-bit \<^verbatim>\<open>size_t\<close> more than \<open>2^63\<close>), and to succeed otherwise, with a block of exactly
  that many bytes. \<open>ReadOutOfBounds\<close> and \<open>WriteOutOfBounds\<close> are not return values of
  the C code: they mark a read of the input at an index that is not below its size, and
  a store into the allocated block at an offset that is not below the size of the block;
  both are undefined behaviour in C.
\<close>

datatype qoi_error =
  InvalidDescriptor | InvalidChannels | BadHeader | AllocationFailed |
  ReadOutOfBounds | WriteOutOfBounds

text \<open>\<^verbatim>\<open>#define QOI_COLOR_HASH(C) (C.rgba.r*3 + C.rgba.g*5 + C.rgba.b*7 + C.rgba.a*11)\<close>,
  computed in \<^verbatim>\<open>int\<close> (no wrap-around: at most \<open>255 * 26\<close>).\<close>

definition QOI_COLOR_HASH :: "qoi_rgba_t \<Rightarrow> nat" where
  "QOI_COLOR_HASH C =
     unat (rgba_r C) * 3 + unat (rgba_g C) * 5 + unat (rgba_b C) * 7 + unat (rgba_a C) * 11"

definition QOI_MAGIC :: "32 word" where
  "QOI_MAGIC = (push_bit 24 0x71 OR push_bit 16 0x6f OR push_bit 8 0x69 OR 0x66)"

definition QOI_HEADER_SIZE :: nat where
  "QOI_HEADER_SIZE = 14"

definition QOI_PADDING :: nat where
  "QOI_PADDING = 8"

text \<open>\<^verbatim>\<open>qoi_write_32\<close>: the four bytes stored at \<^verbatim>\<open>bytes[(*p)++]\<close>, in order.\<close>

definition qoi_write_32 :: "32 word \<Rightarrow> byte list" where
  "qoi_write_32 v =
     [ucast (drop_bit 24 (0xff000000 AND v)),
      ucast (drop_bit 16 (0x00ff0000 AND v)),
      ucast (drop_bit 8 (0x0000ff00 AND v)),
      ucast (0x000000ff AND v)]"

text \<open>A read of the input byte slice at index \<open>p\<close>; \<open>None\<close> when \<open>p\<close> is out of bounds.\<close>

definition rd :: "byte list \<Rightarrow> nat \<Rightarrow> byte option" where
  "rd bytes p = (if p < length bytes then Some (bytes ! p) else None)"

text \<open>\<^verbatim>\<open>qoi_read_32\<close>: the value read and the advanced cursor.\<close>

definition qoi_read_32 :: "byte list \<Rightarrow> nat \<Rightarrow> (32 word \<times> nat) option" where
  "qoi_read_32 bytes p =
     do {
       a \<leftarrow> rd bytes p;
       b \<leftarrow> rd bytes (p + 1);
       c \<leftarrow> rd bytes (p + 2);
       d \<leftarrow> rd bytes (p + 3);
       Some (push_bit 24 (ucast a) OR push_bit 16 (ucast b) OR push_bit 8 (ucast c) OR ucast d,
             p + 4)
     }"

section \<open>The encoder\<close>

text \<open>
  One constructor for each group of \<^verbatim>\<open>bytes[p++] = ...\<close> writes of \<^verbatim>\<open>qoi_encode\<close>,
  holding the values the C expression is built from: \<open>OP_RUN\<close> holds \<^verbatim>\<open>run\<close> as it is
  when the chunk is written, \<open>OP_INDEX\<close> holds \<^verbatim>\<open>index_pos\<close>, \<open>OP_DIFF\<close> holds
  \<^verbatim>\<open>vr, vg, vb\<close>, \<open>OP_LUMA\<close> holds \<^verbatim>\<open>vg, vg_r, vg_b\<close>, \<open>OP_RGB\<close> and \<open>OP_RGBA\<close>
  hold the pixel's components.
\<close>

datatype chunk =
    OP_RUN int
  | OP_INDEX nat
  | OP_DIFF byte byte byte
  | OP_LUMA byte byte byte
  | OP_RGB byte byte byte
  | OP_RGBA byte byte byte byte

text \<open>
  The bytes each group writes. The C expressions are evaluated in \<^verbatim>\<open>int\<close> and stored
  into an \<^verbatim>\<open>unsigned char\<close>, which keeps the value modulo 256: the same as computing on
  8-bit words.
\<close>

fun chunk_bytes :: "chunk \<Rightarrow> byte list" where
  "chunk_bytes (OP_RUN run) = [0xc0 OR of_int (run - 1)]"
| "chunk_bytes (OP_INDEX index_pos) = [0x00 OR of_nat index_pos]"
| "chunk_bytes (OP_DIFF vr vg vb) =
     [0x40 OR push_bit 4 (vr + 2) OR push_bit 2 (vg + 2) OR (vb + 2)]"
| "chunk_bytes (OP_LUMA vg vg_r vg_b) =
     [0x80 OR (vg + 32), push_bit 4 (vg_r + 8) OR (vg_b + 8)]"
| "chunk_bytes (OP_RGB cr cg cb) = [0xfe, cr, cg, cb]"
| "chunk_bytes (OP_RGBA cr cg cb ca) = [0xff, cr, cg, cb, ca]"

text \<open>The encoder's loop-carried variables: \<^verbatim>\<open>index\<close>, \<^verbatim>\<open>run\<close>, \<^verbatim>\<open>px_prev\<close>.
  The variable \<^verbatim>\<open>px\<close> equals \<^verbatim>\<open>px_prev\<close> at the head of every iteration
  (\<^verbatim>\<open>px = px_prev\<close> before the loop, \<^verbatim>\<open>px_prev = px\<close> at the end of the body).\<close>

record enc_state =
  e_index :: "qoi_rgba_t list"
  e_run :: int
  e_px_prev :: qoi_rgba_t

text \<open>Reading the pixel at \<^verbatim>\<open>px_pos\<close>: all four bytes when \<^verbatim>\<open>channels == 4\<close>, else
  only r, g, b, leaving \<^verbatim>\<open>px.rgba.a\<close> as it was. (\<^verbatim>\<open>qoi_encode\<close> is not given the size
  of \<^verbatim>\<open>data\<close>: it reads \<^verbatim>\<open>px_len\<close> bytes of it. The theorems on pixel values take a
  buffer of the size the descriptor declares.)\<close>

definition read_px :: "byte list \<Rightarrow> nat \<Rightarrow> nat \<Rightarrow> qoi_rgba_t \<Rightarrow> qoi_rgba_t" where
  "read_px pixels chans px_pos px =
     (if chans = 4 then
        \<lparr>rgba_r = pixels ! px_pos, rgba_g = pixels ! (px_pos + 1),
         rgba_b = pixels ! (px_pos + 2), rgba_a = pixels ! (px_pos + 3)\<rparr>
      else
        px\<lparr>rgba_r := pixels ! (px_pos + 0), rgba_g := pixels ! (px_pos + 1),
           rgba_b := pixels ! (px_pos + 2)\<rparr>)"

text \<open>The chunk for a pixel that is neither a repeat nor in the index. The differences
  are \<^verbatim>\<open>char\<close>, taken to be signed and 8 bits wide: the subtraction wraps, and the
  range tests read the result as two's complement (\<open>sint\<close>).\<close>

definition enc_delta :: "qoi_rgba_t \<Rightarrow> qoi_rgba_t \<Rightarrow> chunk" where
  "enc_delta px px_prev =
     (if rgba_a px = rgba_a px_prev then
        (let vr = rgba_r px - rgba_r px_prev;
             vg = rgba_g px - rgba_g px_prev;
             vb = rgba_b px - rgba_b px_prev;
             vg_r = vr - vg;
             vg_b = vb - vg
         in
           if sint vr > -3 \<and> sint vr < 2 \<and>
              sint vg > -3 \<and> sint vg < 2 \<and>
              sint vb > -3 \<and> sint vb < 2
           then OP_DIFF vr vg vb
           else if sint vg_r > -9 \<and> sint vg_r < 8 \<and>
                   sint vg > -33 \<and> sint vg < 32 \<and>
                   sint vg_b > -9 \<and> sint vg_b < 8
           then OP_LUMA vg vg_r vg_b
           else OP_RGB (rgba_r px) (rgba_g px) (rgba_b px))
      else OP_RGBA (rgba_r px) (rgba_g px) (rgba_b px) (rgba_a px))"

text \<open>The loop body after the pixel is read; \<open>at_end\<close> is \<^verbatim>\<open>px_pos == px_end\<close>.\<close>

definition enc_px :: "bool \<Rightarrow> qoi_rgba_t \<Rightarrow> enc_state \<Rightarrow> chunk list \<times> enc_state" where
  "enc_px at_end px s =
     (if px = e_px_prev s then
        (let run = e_run s + 1 in
           if run = 62 \<or> at_end
           then ([OP_RUN run], s\<lparr>e_run := 0, e_px_prev := px\<rparr>)
           else ([], s\<lparr>e_run := run, e_px_prev := px\<rparr>))
      else
        (let flush = (if e_run s > 0 then [OP_RUN (e_run s)] else []);
             index_pos = QOI_COLOR_HASH px mod 64
         in
           if e_index s ! index_pos = px
           then (flush @ [OP_INDEX index_pos], s\<lparr>e_run := 0, e_px_prev := px\<rparr>)
           else (flush @ [enc_delta px (e_px_prev s)],
                 s\<lparr>e_index := (e_index s)[index_pos := px], e_run := 0, e_px_prev := px\<rparr>)))"

text \<open>\<^verbatim>\<open>for (int px_pos = 0; px_pos < px_len; px_pos += channels)\<close>, returning the
  chunks written from \<^verbatim>\<open>px_pos\<close> on. (\<^verbatim>\<open>channels\<close> is 3 or 4 whenever the loop is
  reached.)\<close>

function enc_loop :: "byte list \<Rightarrow> nat \<Rightarrow> int \<Rightarrow> nat \<Rightarrow> enc_state \<Rightarrow> chunk list" where
  "enc_loop pixels chans px_len px_pos s =
     (if int px_pos < px_len \<and> 0 < chans then
        (let px = read_px pixels chans px_pos (e_px_prev s);
             res = enc_px (int px_pos = px_len - int chans) px s
         in fst res @ enc_loop pixels chans px_len (px_pos + chans) (snd res))
      else [])"
  by pat_completeness auto
termination
  by (relation "measure (\<lambda>(pixels, chans, px_len, px_pos, s). nat (px_len - int px_pos))") auto

declare enc_loop.simps [simp del]

definition enc_init :: enc_state where
  "enc_init = \<lparr>e_index = replicate 64 \<lparr>rgba_r = 0, rgba_g = 0, rgba_b = 0, rgba_a = 0\<rparr>,
               e_run = 0,
               e_px_prev = \<lparr>rgba_r = 0, rgba_g = 0, rgba_b = 0, rgba_a = 0\<rparr>\<rparr>"

text \<open>\<^verbatim>\<open>int px_len = desc->width * desc->height * desc->channels;\<close> the product is
  computed in \<^verbatim>\<open>unsigned int\<close> (wrapping at 32 bits) and stored in an \<^verbatim>\<open>int\<close>.\<close>

definition enc_px_len :: "qoi_desc \<Rightarrow> int" where
  "enc_px_len desc = sint (width desc * height desc * ucast (channels desc))"

text \<open>\<^verbatim>\<open>int max_size = desc->width * desc->height * (desc->channels + 1) +
  QOI_HEADER_SIZE + QOI_PADDING;\<close>\<close>

definition max_size :: "qoi_desc \<Rightarrow> int" where
  "max_size desc =
     sint (width desc * height desc * (ucast (channels desc) + 1) + 14 + 8)"

definition enc_header :: "qoi_desc \<Rightarrow> byte list" where
  "enc_header desc =
     qoi_write_32 QOI_MAGIC @ qoi_write_32 (width desc) @ qoi_write_32 (height desc) @
     [channels desc, colorspace desc]"

definition enc_chunks :: "byte list \<Rightarrow> qoi_desc \<Rightarrow> chunk list" where
  "enc_chunks data desc =
     enc_loop data (unat (channels desc)) (enc_px_len desc) 0 enc_init"

text \<open>All the bytes \<^verbatim>\<open>qoi_encode\<close> stores with \<^verbatim>\<open>bytes[p++] = ...\<close>, in order: the
  header, the chunks, the padding.\<close>

definition enc_bytes :: "byte list \<Rightarrow> qoi_desc \<Rightarrow> byte list" where
  "enc_bytes data desc =
     enc_header desc @
     concat (map chunk_bytes (enc_chunks data desc)) @
     replicate QOI_PADDING 0"

text \<open>\<^verbatim>\<open>qoi_encode\<close>: the bytes written, \<^verbatim>\<open>bytes[0 .. p)\<close>; \<^verbatim>\<open>*out_len\<close> is their
  number. The block \<^verbatim>\<open>bytes\<close> has \<^verbatim>\<open>max_size\<close> bytes, and the stores go to the
  consecutive offsets \<open>0, 1, ...\<close> from \<^verbatim>\<open>p = 0\<close> on: one of them is outside the block
  exactly when there are more than \<^verbatim>\<open>max_size\<close> of them.\<close>

definition qoi_encode :: "byte list \<Rightarrow> qoi_desc \<Rightarrow> qoi_error + byte list" where
  "qoi_encode data desc =
     (if width desc = 0 \<or> height desc = 0 \<or>
         channels desc < 3 \<or> channels desc > 4 \<or>
         colorspace desc > 2
      then Inl InvalidDescriptor
      else if max_size desc < 0 then Inl AllocationFailed
      else if max_size desc < int (length (enc_bytes data desc)) then Inl WriteOutOfBounds
      else Inr (enc_bytes data desc))"

section \<open>The decoder\<close>

text \<open>The decoder's loop-carried variables: \<^verbatim>\<open>p\<close>, \<^verbatim>\<open>px\<close>, \<^verbatim>\<open>index\<close>, \<^verbatim>\<open>run\<close>.\<close>

record dec_state =
  d_p :: nat
  d_px :: qoi_rgba_t
  d_index :: "qoi_rgba_t list"
  d_run :: int

text \<open>The chunk read at \<^verbatim>\<open>p\<close>, up to the store into \<^verbatim>\<open>index\<close>. The additions to the
  components are stored into \<^verbatim>\<open>unsigned char\<close>: 8-bit wrap-around.\<close>

definition dec_chunk :: "byte list \<Rightarrow> dec_state \<Rightarrow> dec_state option" where
  "dec_chunk bytes s =
     do {
       b1 \<leftarrow> rd bytes (d_p s);
       if b1 = 0xfe then
         do {
           cr \<leftarrow> rd bytes (d_p s + 1);
           cg \<leftarrow> rd bytes (d_p s + 2);
           cb \<leftarrow> rd bytes (d_p s + 3);
           Some (s\<lparr>d_p := d_p s + 4,
                   d_px := (d_px s)\<lparr>rgba_r := cr, rgba_g := cg, rgba_b := cb\<rparr>\<rparr>)
         }
       else if b1 = 0xff then
         do {
           cr \<leftarrow> rd bytes (d_p s + 1);
           cg \<leftarrow> rd bytes (d_p s + 2);
           cb \<leftarrow> rd bytes (d_p s + 3);
           ca \<leftarrow> rd bytes (d_p s + 4);
           Some (s\<lparr>d_p := d_p s + 5,
                   d_px := \<lparr>rgba_r = cr, rgba_g = cg, rgba_b = cb, rgba_a = ca\<rparr>\<rparr>)
         }
       else if b1 AND 0xc0 = 0x00 then
         Some (s\<lparr>d_p := d_p s + 1, d_px := d_index s ! unat b1\<rparr>)
       else if b1 AND 0xc0 = 0x40 then
         Some (s\<lparr>d_p := d_p s + 1,
                 d_px := (d_px s)
                   \<lparr>rgba_r := rgba_r (d_px s) + ((drop_bit 4 b1 AND 0x03) - 2),
                    rgba_g := rgba_g (d_px s) + ((drop_bit 2 b1 AND 0x03) - 2),
                    rgba_b := rgba_b (d_px s) + ((b1 AND 0x03) - 2)\<rparr>\<rparr>)
       else if b1 AND 0xc0 = 0x80 then
         do {
           b2 \<leftarrow> rd bytes (d_p s + 1);
           let vg = (b1 AND 0x3f) - 32 in
           Some (s\<lparr>d_p := d_p s + 2,
                   d_px := (d_px s)
                     \<lparr>rgba_r := rgba_r (d_px s) + (vg - 8 + (drop_bit 4 b2 AND 0x0f)),
                      rgba_g := rgba_g (d_px s) + vg,
                      rgba_b := rgba_b (d_px s) + (vg - 8 + (b2 AND 0x0f))\<rparr>\<rparr>)
         }
       else if b1 AND 0xc0 = 0xc0 then
         Some (s\<lparr>d_p := d_p s + 1, d_run := uint (b1 AND 0x3f)\<rparr>)
       else Some (s\<lparr>d_p := d_p s + 1\<rparr>)
     }"

text \<open>The state update of one iteration of the decoding loop.\<close>

definition dec_iter :: "byte list \<Rightarrow> int \<Rightarrow> dec_state \<Rightarrow> dec_state option" where
  "dec_iter bytes chunks_len s =
     (if d_run s > 0 then Some (s\<lparr>d_run := d_run s - 1\<rparr>)
      else if int (d_p s) < chunks_len then
        do {
          s1 \<leftarrow> dec_chunk bytes s;
          Some (s1\<lparr>d_index := (d_index s1)[QOI_COLOR_HASH (d_px s1) mod 64 := d_px s1]\<rparr>)
        }
      else Some s)"

text \<open>The bytes stored at \<^verbatim>\<open>pixels + px_pos\<close>.\<close>

definition px_out :: "nat \<Rightarrow> qoi_rgba_t \<Rightarrow> byte list" where
  "px_out chans px =
     (if chans = 4 then [rgba_r px, rgba_g px, rgba_b px, rgba_a px]
      else [rgba_r px, rgba_g px, rgba_b px])"

text \<open>\<^verbatim>\<open>for (int px_pos = 0; px_pos < px_len; px_pos += channels)\<close>, returning the bytes
  stored from \<^verbatim>\<open>px_pos\<close> on, or \<open>None\<close> when a read is out of bounds. (\<^verbatim>\<open>channels\<close>
  is 3 or 4 whenever the loop is reached.)\<close>

function dec_loop ::
  "byte list \<Rightarrow> int \<Rightarrow> nat \<Rightarrow> int \<Rightarrow> nat \<Rightarrow> dec_state \<Rightarrow> byte list option" where
  "dec_loop bytes chunks_len chans px_len px_pos s =
     (if int px_pos < px_len \<and> 0 < chans then
        (case dec_iter bytes chunks_len s of
           None \<Rightarrow> None
         | Some s' \<Rightarrow>
             (case dec_loop bytes chunks_len chans px_len (px_pos + chans) s' of
                None \<Rightarrow> None
              | Some rest \<Rightarrow> Some (px_out chans (d_px s') @ rest)))
      else Some [])"
  by pat_completeness auto
termination
  by (relation "measure (\<lambda>(bytes, chunks_len, chans, px_len, px_pos, s). nat (px_len - int px_pos))")
    auto

declare dec_loop.simps [simp del]

definition dec_init :: "nat \<Rightarrow> dec_state" where
  "dec_init p0 = \<lparr>d_p = p0,
                  d_px = \<lparr>rgba_r = 0, rgba_g = 0, rgba_b = 0, rgba_a = 0\<rparr>,
                  d_index = replicate 64 \<lparr>rgba_r = 0, rgba_g = 0, rgba_b = 0, rgba_a = 0\<rparr>,
                  d_run = 0\<rparr>"

text \<open>The header fields as \<^verbatim>\<open>qoi_decode\<close> reads them, with the cursor after them.\<close>

definition dec_header :: "byte list \<Rightarrow> (32 word \<times> qoi_desc \<times> nat) option" where
  "dec_header bytes =
     do {
       (header_magic, p1) \<leftarrow> qoi_read_32 bytes 0;
       (w, p2) \<leftarrow> qoi_read_32 bytes p1;
       (h, p3) \<leftarrow> qoi_read_32 bytes p2;
       ch \<leftarrow> rd bytes p3;
       cs \<leftarrow> rd bytes (p3 + 1);
       Some (header_magic, \<lparr>width = w, height = h, channels = ch, colorspace = cs\<rparr>, p3 + 2)
     }"

text \<open>\<^verbatim>\<open>int px_len = desc->width * desc->height * channels;\<close>\<close>

definition dec_px_len :: "qoi_desc \<Rightarrow> nat \<Rightarrow> int" where
  "dec_px_len desc chans = sint (width desc * height desc * of_nat chans)"

text \<open>\<^verbatim>\<open>qoi_decode(data, size, desc, channels)\<close> with \<open>size\<close> the length of the input:
  the pixels stored and the descriptor filled in. (A negative \<^verbatim>\<open>channels\<close> fails the
  same check as every other value outside 0, 3, 4.) The block \<^verbatim>\<open>pixels\<close> has
  \<^verbatim>\<open>px_len\<close> bytes, and the loop stores \<^verbatim>\<open>channels\<close> bytes at each \<^verbatim>\<open>px_pos\<close>, at
  consecutive offsets from 0 on: a store is outside the block exactly when more than
  \<^verbatim>\<open>px_len\<close> bytes are stored (the last pixel, when \<^verbatim>\<open>px_len\<close> is not a multiple of
  \<^verbatim>\<open>channels\<close>).\<close>

definition qoi_decode :: "byte list \<Rightarrow> nat \<Rightarrow> qoi_error + (byte list \<times> qoi_desc)" where
  "qoi_decode bytes chans0 =
     (if chans0 \<noteq> 0 \<and> chans0 \<noteq> 3 \<and> chans0 \<noteq> 4 then Inl InvalidChannels
      else if length bytes < QOI_HEADER_SIZE + QOI_PADDING then Inl BadHeader
      else
        (case dec_header bytes of
           None \<Rightarrow> Inl ReadOutOfBounds
         | Some (header_magic, desc, p) \<Rightarrow>
             if width desc = 0 \<or> height desc = 0 \<or>
                channels desc < 3 \<or> channels desc > 4 \<or>
                colorspace desc > 2 \<or>
                header_magic \<noteq> QOI_MAGIC
             then Inl BadHeader
             else
               (let chans = (if chans0 = 0 then unat (channels desc) else chans0);
                    px_len = dec_px_len desc chans;
                    chunks_len = int (length bytes) - int QOI_PADDING
                in if px_len < 0 then Inl AllocationFailed
                   else
                     (case dec_loop bytes chunks_len chans px_len 0 (dec_init p) of
                        None \<Rightarrow> Inl ReadOutOfBounds
                      | Some pixels \<Rightarrow>
                          if px_len < int (length pixels) then Inl WriteOutOfBounds
                          else Inr (pixels, desc)))))"

section \<open>Derived notions\<close>

text \<open>The decoder's state after \<open>k\<close> iterations of its loop.\<close>

fun dec_iters :: "nat \<Rightarrow> byte list \<Rightarrow> int \<Rightarrow> dec_state \<Rightarrow> dec_state option" where
  "dec_iters 0 bytes chunks_len s = Some s"
| "dec_iters (Suc k) bytes chunks_len s =
     (case dec_iter bytes chunks_len s of
        None \<Rightarrow> None
      | Some s' \<Rightarrow> dec_iters k bytes chunks_len s')"

text \<open>The pixels of a buffer as the encoder reads them: groups of four bytes, or groups
  of three with the alpha \<open>al\<close> that \<^verbatim>\<open>px\<close> keeps.\<close>

fun rgba_pixels :: "byte list \<Rightarrow> qoi_rgba_t list" where
  "rgba_pixels (cr # cg # cb # ca # rest) =
     \<lparr>rgba_r = cr, rgba_g = cg, rgba_b = cb, rgba_a = ca\<rparr> # rgba_pixels rest"
| "rgba_pixels _ = []"

fun rgb_pixels :: "byte \<Rightarrow> byte list \<Rightarrow> qoi_rgba_t list" where
  "rgb_pixels al (cr # cg # cb # rest) =
     \<lparr>rgba_r = cr, rgba_g = cg, rgba_b = cb, rgba_a = al\<rparr> # rgb_pixels al rest"
| "rgb_pixels al _ = []"

definition to_pixels :: "nat \<Rightarrow> byte \<Rightarrow> byte list \<Rightarrow> qoi_rgba_t list" where
  "to_pixels chans al bs = (if chans = 4 then rgba_pixels bs else rgb_pixels al bs)"

text \<open>The invariant of the encoding loop behind the trailer property: the bytes written
  so far hold no run of eight zero bytes, they end in fewer than five zero bytes (fewer
  than six when the slot of the previous pixel is slot 0), and the slot of the previous
  pixel holds it.\<close>

definition zero_safe :: "byte list \<Rightarrow> enc_state \<Rightarrow> bool" where
  "zero_safe acc s \<longleftrightarrow>
     \<not> sublist (replicate 8 0) acc \<and>
     \<not> suffix (replicate (if QOI_COLOR_HASH (e_px_prev s) mod 64 = 0 then 6 else 5) 0) acc \<and>
     length (e_index s) = 64 \<and>
     e_index s ! (QOI_COLOR_HASH (e_px_prev s) mod 64) = e_px_prev s"

section \<open>Worked inputs\<close>

text \<open>Two streams with the header of a 1 x 3 RGBA image: one whose chunks end after the
  first pixel, and one with a run chunk for the second and third pixel.\<close>

definition truncated_example :: "byte list" where
  "truncated_example =
     [0x71, 0x6f, 0x69, 0x66, 0, 0, 0, 1, 0, 0, 0, 3, 4, 0, 0xff, 10, 20, 30, 40,
      0, 0, 0, 0, 0, 0, 0, 0]"

definition run_example :: "byte list" where
  "run_example =
     [0x71, 0x6f, 0x69, 0x66, 0, 0, 0, 1, 0, 0, 0, 3, 4, 0, 0xff, 10, 20, 30, 40, 0xc1,
      0, 0, 0, 0, 0, 0, 0, 0]"

text \<open>A stream of 23 bytes with the header of a 1 x 1 RGBA image and an RGBA chunk that
  begins at offset 14, the last offset below \<open>size - 8 = 15\<close>: its five bytes end at
  offset 18, among the last eight bytes of the stream.\<close>

definition margin_example :: "byte list" where
  "margin_example =
     [0x71, 0x6f, 0x69, 0x66, 0, 0, 0, 1, 0, 0, 0, 1, 4, 0, 0xff, 1, 2, 3, 4, 0, 0, 0, 0]"

text \<open>Descriptors: small images, one with colorspace 2, and two images of
  65536 x 65536 pixels, whose pixel count is \<open>2^32\<close>.\<close>

definition d_1x3 :: qoi_desc where
  "d_1x3 = \<lparr>width = 1, height = 3, channels = 4, colorspace = 0\<rparr>"

definition d_1x3_rgb :: qoi_desc where
  "d_1x3_rgb = \<lparr>width = 1, height = 3, channels = 3, colorspace = 1\<rparr>"

definition d_rgb :: qoi_desc where
  "d_rgb = \<lparr>width = 1, height = 1, channels = 3, colorspace = 0\<rparr>"

definition d_cs2 :: qoi_desc where
  "d_cs2 = \<lparr>width = 1, height = 1, channels = 4, colorspace = 2\<rparr>"

definition d_huge4 :: qoi_desc where
  "d_huge4 = \<lparr>width = 65536, height = 65536, channels = 4, colorspace = 0\<rparr>"

definition d_huge3 :: qoi_desc where
  "d_huge3 = \<lparr>width = 65536, height = 65536, channels = 3, colorspace = 0\<rparr>"


text \<open>A 1 x 2 RGBA image whose second pixel is the all-zero pixel of index slot 0.\<close>

definition d_1x2 :: qoi_desc where
  "d_1x2 = \<lparr>width = 1, height = 2, channels = 4, colorspace = 0\<rparr>"

text \<open>A stream of 22 bytes: the header of a 65536 x 16384 RGB image and the padding. The
  cursor after the header is at \<open>size - 8 = 14\<close>.\<close>

definition overflow_example :: "byte list" where
  "overflow_example =
     [0x71, 0x6f, 0x69, 0x66, 0, 1, 0, 0, 0, 0, 0x40, 0, 3, 0, 0, 0, 0, 0, 0, 0, 0, 0]"

section \<open>The decoder never reads out of bounds\<close>

lemma rd_in_range: "p < length bytes \<Longrightarrow> rd bytes p = Some (bytes ! p)"
  by (simp add: rd_def)

lemma dec_chunk_reads_ok:
  assumes "d_p s + 4 < length bytes"
  shows "\<exists>s'. dec_chunk bytes s = Some s'"
  using assms by (simp add: dec_chunk_def rd_in_range Let_def)

lemma dec_iter_reads_ok:
  assumes "chunks_len + 4 \<le> int (length bytes)"
  shows "\<exists>s'. dec_iter bytes chunks_len s = Some s'"
proof (cases "\<not> d_run s > 0 \<and> int (d_p s) < chunks_len")
  case True
  then have "d_p s + 4 < length bytes" using assms by linarith
  from dec_chunk_reads_ok [OF this] obtain s1 where "dec_chunk bytes s = Some s1" ..
  with True show ?thesis by (simp add: dec_iter_def)
next
  case False
  then show ?thesis by (auto simp: dec_iter_def)
qed

lemma dec_loop_reads_ok:
  "chunks_len + 4 \<le> int (length bytes) \<Longrightarrow>
   \<exists>out. dec_loop bytes chunks_len chans px_len px_pos s = Some out"
proof (induction bytes chunks_len chans px_len px_pos s rule: dec_loop.induct)
  case (1 bytes chunks_len chans px_len px_pos s)
  show ?case
  proof (cases "int px_pos < px_len \<and> 0 < chans")
    case True
    obtain s' where s': "dec_iter bytes chunks_len s = Some s'"
      using dec_iter_reads_ok [OF "1.prems"] by blast
    from "1.IH" [OF True s' "1.prems"] obtain rest where
      "dec_loop bytes chunks_len chans px_len (px_pos + chans) s' = Some rest" ..
    with True s' show ?thesis
      by (subst dec_loop.simps) simp
  next
    case False
    then show ?thesis by (subst dec_loop.simps) auto
  qed
qed

lemma qoi_read_32_ok:
  "p + 3 < length bytes \<Longrightarrow> \<exists>v. qoi_read_32 bytes p = Some (v, p + 4)"
  by (simp add: qoi_read_32_def rd_in_range)

lemma dec_header_reads_ok:
  assumes "14 \<le> length bytes"
  shows "\<exists>m d. dec_header bytes = Some (m, d, 14)"
proof -
  obtain m where m: "qoi_read_32 bytes 0 = Some (m, 4)"
    using qoi_read_32_ok [of 0 bytes] assms by auto
  obtain w where w: "qoi_read_32 bytes 4 = Some (w, 8)"
    using qoi_read_32_ok [of 4 bytes] assms by auto
  obtain h where h: "qoi_read_32 bytes 8 = Some (h, 12)"
    using qoi_read_32_ok [of 8 bytes] assms by auto
  show ?thesis using assms by (simp add: dec_header_def m w h rd_in_range)
qed

text \<open>
  C10: once the size check \<open>22 \<le> size\<close> has passed, no read of the input is out of
  bounds: neither the header reads, nor any read of an iteration of the decoding loop
  from any state (every read goes through \<open>rd\<close>, which yields \<open>None\<close> at an index that
  is not below the size), so the loop and the call never meet \<open>ReadOutOfBounds\<close>. The
  cursor is compared with \<open>size - 8\<close> and a chunk reads at most the five bytes
  \<open>p, ..., p + 4\<close>.
\<close>

theorem decode_reads_in_bounds:
  assumes "22 \<le> length bytes"
  shows "dec_header bytes \<noteq> None \<and>
         dec_iter bytes (int (length bytes) - 8) s \<noteq> None \<and>
         dec_loop bytes (int (length bytes) - 8) chans px_len px_pos s \<noteq> None \<and>
         qoi_decode bytes chans0 \<noteq> Inl ReadOutOfBounds"
proof -
  have len: "int (length bytes) - 8 + 4 \<le> int (length bytes)" by simp
  obtain m d where hd: "dec_header bytes = Some (m, d, 14)"
    using dec_header_reads_ok assms by force
  have it: "dec_iter bytes (int (length bytes) - 8) s \<noteq> None"
    using dec_iter_reads_ok [OF len] by force
  have lp: "dec_loop bytes (int (length bytes) - 8) c l q t \<noteq> None" for c l q t
    using dec_loop_reads_ok [OF len] by force
  have co: "(case dec_loop bytes (int (length bytes) - 8) c l q t of
           None \<Rightarrow> Inl ReadOutOfBounds
         | Some pixels \<Rightarrow>
             if l < int (length pixels) then Inl WriteOutOfBounds else Inr (pixels, d'))
         \<noteq> Inl ReadOutOfBounds" for c l q t d'
    using lp [of c l q t] by (auto split: option.splits)
  have "qoi_decode bytes chans0 \<noteq> Inl ReadOutOfBounds"
    by (simp add: qoi_decode_def hd Let_def QOI_PADDING_def co)
  with hd it lp show ?thesis by simp
qed

theorem decode_reads_in_bounds_witness:
  "22 \<le> length margin_example \<and>
   dec_header margin_example =
     Some (QOI_MAGIC, \<lparr>width = 1, height = 1, channels = 4, colorspace = 0\<rparr>, 14) \<and>
   int (d_p (dec_init 14)) < int (length margin_example) - 8 \<and>
   dec_iter margin_example (int (length margin_example) - 8) (dec_init 14) =
     Some \<lparr>d_p = 19, d_px = \<lparr>rgba_r = 1, rgba_g = 2, rgba_b = 3, rgba_a = 4\<rparr>,
           d_index = (replicate 64 \<lparr>rgba_r = 0, rgba_g = 0, rgba_b = 0, rgba_a = 0\<rparr>)
             [14 := \<lparr>rgba_r = 1, rgba_g = 2, rgba_b = 3, rgba_a = 4\<rparr>],
           d_run = 0\<rparr> \<and>
   dec_header margin_example \<noteq> None \<and>
   dec_iter margin_example (int (length margin_example) - 8) (dec_init 14) \<noteq> None \<and>
   dec_loop margin_example (int (length margin_example) - 8) 4 4 0 (dec_init 14) \<noteq> None \<and>
   qoi_decode margin_example 4 \<noteq> Inl ReadOutOfBounds \<and>
   qoi_decode margin_example 4 =
     Inr ([1, 2, 3, 4], \<lparr>width = 1, height = 1, channels = 4, colorspace = 0\<rparr>)"
proof -
  have l: "22 \<le> length margin_example"
    by (simp add: margin_example_def)
  have h: "dec_header margin_example =
     Some (QOI_MAGIC, \<lparr>width = 1, height = 1, channels = 4, colorspace = 0\<rparr>, 14)"
    by code_simp
  have p: "int (d_p (dec_init 14)) < int (length margin_example) - 8"
    by (simp add: margin_example_def dec_init_def)
  have i: "dec_iter margin_example (int (length margin_example) - 8) (dec_init 14) =
     Some \<lparr>d_p = 19, d_px = \<lparr>rgba_r = 1, rgba_g = 2, rgba_b = 3, rgba_a = 4\<rparr>,
           d_index = (replicate 64 \<lparr>rgba_r = 0, rgba_g = 0, rgba_b = 0, rgba_a = 0\<rparr>)
             [14 := \<lparr>rgba_r = 1, rgba_g = 2, rgba_b = 3, rgba_a = 4\<rparr>],
           d_run = 0\<rparr>"
    by code_simp
  have d: "qoi_decode margin_example 4 =
     Inr ([1, 2, 3, 4], \<lparr>width = 1, height = 1, channels = 4, colorspace = 0\<rparr>)"
    by code_simp
  from decode_reads_in_bounds [OF l, of "dec_init 14" 4 4 0 4] l h p i d
  show ?thesis by blast
qed

section \<open>Decoding past the end of the chunks\<close>

lemma dec_loop_done:
  "\<not> (int px_pos < px_len \<and> 0 < chans) \<Longrightarrow>
   dec_loop bytes chunks_len chans px_len px_pos s = Some []"
  by (subst dec_loop.simps) auto

lemma dec_loop_step:
  "int px_pos < px_len \<Longrightarrow> 0 < chans \<Longrightarrow> dec_iter bytes chunks_len s = Some s' \<Longrightarrow>
   dec_loop bytes chunks_len chans px_len px_pos s =
     map_option ((@) (px_out chans (d_px s')))
       (dec_loop bytes chunks_len chans px_len (px_pos + chans) s')"
  by (subst dec_loop.simps) (auto split: option.splits)

lemma dec_iter_past_end:
  assumes "chunks_len \<le> int (d_p s)"
  shows "\<exists>s'. dec_iter bytes chunks_len s = Some s' \<and> d_px s' = d_px s \<and> d_p s' = d_p s"
  using assms by (auto simp: dec_iter_def)

lemma dec_loop_past_end:
  "chunks_len \<le> int (d_p s) \<Longrightarrow> 0 < chans \<Longrightarrow>
   px_len \<le> int (px_pos + m * chans) \<Longrightarrow>
   m = 0 \<or> int (px_pos + (m - 1) * chans) < px_len \<Longrightarrow>
   dec_loop bytes chunks_len chans px_len px_pos s =
     Some (concat (replicate m (px_out chans (d_px s))))"
proof (induction m arbitrary: px_pos s)
  case 0
  then show ?case by (simp add: dec_loop_done)
next
  case (Suc m)
  from Suc.prems have lt: "int px_pos < px_len"
    by (cases m) (auto simp: algebra_simps intro: le_less_trans [rotated])
  obtain s' where s': "dec_iter bytes chunks_len s = Some s'" "d_px s' = d_px s" "d_p s' = d_p s"
    using dec_iter_past_end [OF Suc.prems(1)] by blast
  have more: "m = 0 \<or> int (px_pos + chans + (m - 1) * chans) < px_len"
    using Suc.prems(4) by (cases m) (auto simp: algebra_simps)
  have "dec_loop bytes chunks_len chans px_len (px_pos + chans) s' =
          Some (concat (replicate m (px_out chans (d_px s'))))"
    using Suc.prems by (intro Suc.IH more) (auto simp: s' algebra_simps)
  then show ?case
    by (simp add: dec_loop_step [OF lt Suc.prems(2) s'(1)] s')
qed

lemma length_px_out: "chans = 3 \<or> chans = 4 \<Longrightarrow> length (px_out chans px) = chans"
  by (auto simp: px_out_def)

lemma loop_head_less:
  assumes "m \<noteq> 0" "int (px_pos + (m - 1) * chans) < px_len"
  shows "int px_pos < px_len"
proof -
  have "int px_pos \<le> int (px_pos + (m - 1) * chans)" by simp
  with assms(2) show ?thesis by linarith
qed

text \<open>The number of bytes the loop stores: \<open>channels\<close> for each of its iterations.\<close>

lemma dec_loop_length:
  "chans = 3 \<or> chans = 4 \<Longrightarrow>
   px_len \<le> int (px_pos + m * chans) \<Longrightarrow>
   m = 0 \<or> int (px_pos + (m - 1) * chans) < px_len \<Longrightarrow>
   dec_loop bytes chunks_len chans px_len px_pos s = Some out \<Longrightarrow>
   length out = m * chans"
proof (induction m arbitrary: px_pos s out)
  case 0
  then show ?case by (simp add: dec_loop_done)
next
  case (Suc m)
  have c: "0 < chans" using Suc.prems(1) by auto
  from Suc.prems(3) have lt: "int px_pos < px_len"
    by (intro loop_head_less [of "Suc m" px_pos chans px_len]) simp_all
  from Suc.prems(4) obtain s' rest where
    s': "dec_iter bytes chunks_len s = Some s'"
    and rest: "dec_loop bytes chunks_len chans px_len (px_pos + chans) s' = Some rest"
    and out: "out = px_out chans (d_px s') @ rest"
    using lt c by (subst (asm) dec_loop.simps) (auto split: option.splits)
  have more: "m = 0 \<or> int (px_pos + chans + (m - 1) * chans) < px_len"
    using Suc.prems(3) by (cases m) (auto simp: algebra_simps)
  have le: "px_len \<le> int (px_pos + chans + m * chans)"
    using Suc.prems(2) by (simp add: algebra_simps)
  from Suc.IH [OF Suc.prems(1) le more rest] have "length rest = m * chans" .
  then show ?case
    by (simp add: out length_px_out [OF Suc.prems(1)])
qed

text \<open>The loop after \<open>k\<close> iterations: the bytes of \<open>k\<close> pixels, then what the loop stores
  from the state reached.\<close>

lemma dec_loop_split:
  "chans = 3 \<or> chans = 4 \<Longrightarrow>
   dec_iters k bytes chunks_len s0 = Some s \<Longrightarrow>
   k = 0 \<or> int (px_pos + (k - 1) * chans) < px_len \<Longrightarrow>
   dec_loop bytes chunks_len chans px_len (px_pos + k * chans) s = Some rest \<Longrightarrow>
   \<exists>pre. length pre = k * chans \<and>
         dec_loop bytes chunks_len chans px_len px_pos s0 = Some (pre @ rest)"
proof (induction k arbitrary: px_pos s0)
  case 0
  then show ?case by simp
next
  case (Suc k)
  have c: "0 < chans" using Suc.prems(1) by auto
  from Suc.prems(3) have lt: "int px_pos < px_len"
    by (intro loop_head_less [of "Suc k" px_pos chans px_len]) simp_all
  from Suc.prems(2) obtain s1 where
    s1: "dec_iter bytes chunks_len s0 = Some s1"
    and its: "dec_iters k bytes chunks_len s1 = Some s"
    by (auto split: option.splits)
  have more: "k = 0 \<or> int (px_pos + chans + (k - 1) * chans) < px_len"
    using Suc.prems(3) by (cases k) (auto simp: algebra_simps)
  have r: "dec_loop bytes chunks_len chans px_len (px_pos + chans + k * chans) s = Some rest"
    using Suc.prems(4) by (simp add: algebra_simps)
  from Suc.IH [OF Suc.prems(1) its more r] obtain pre where
    pre: "length pre = k * chans"
      "dec_loop bytes chunks_len chans px_len (px_pos + chans) s1 = Some (pre @ rest)"
    by blast
  have "dec_loop bytes chunks_len chans px_len px_pos s0 =
          Some ((px_out chans (d_px s1) @ pre) @ rest)"
    by (simp add: dec_loop_step [OF lt c s1] pre(2))
  moreover have "length (px_out chans (d_px s1) @ pre) = Suc k * chans"
    by (simp add: pre(1) length_px_out [OF Suc.prems(1)])
  ultimately show ?case by blast
qed

section \<open>The index array of the decoder\<close>

lemma dec_chunk_index:
  "dec_chunk bytes s = Some s1 \<Longrightarrow> d_index s1 = d_index s"
  by (auto simp: dec_chunk_def Let_def split: Option.bind_splits if_splits)

lemma QOI_COLOR_HASH_mod_lt: "QOI_COLOR_HASH px mod 64 < 64"
  by simp

lemma dec_iter_index_ok:
  assumes "dec_iter bytes chunks_len s = Some s'"
    and "length (d_index s) = 64"
    and "d_index s ! (QOI_COLOR_HASH (d_px s) mod 64) = d_px s"
  shows "length (d_index s') = 64 \<and> d_index s' ! (QOI_COLOR_HASH (d_px s') mod 64) = d_px s'"
proof (cases "\<not> 0 < d_run s \<and> int (d_p s) < chunks_len")
  case True
  then obtain s1 where s1: "dec_chunk bytes s = Some s1"
    and s': "s' = s1\<lparr>d_index := (d_index s1)[QOI_COLOR_HASH (d_px s1) mod 64 := d_px s1]\<rparr>"
    using assms(1) by (auto simp: dec_iter_def split: Option.bind_splits)
  have "length (d_index s1) = 64"
    using dec_chunk_index [OF s1] assms(2) by simp
  then show ?thesis by (simp add: s')
next
  case False
  then have "d_index s' = d_index s \<and> d_px s' = d_px s"
    using assms(1) by (auto simp: dec_iter_def split: if_splits)
  then show ?thesis using assms(2,3) by simp
qed

lemma dec_iters_index_ok:
  "dec_iters k bytes chunks_len s = Some s' \<Longrightarrow>
   length (d_index s) = 64 \<Longrightarrow>
   d_index s ! (QOI_COLOR_HASH (d_px s) mod 64) = d_px s \<Longrightarrow>
   length (d_index s') = 64 \<and> d_index s' ! (QOI_COLOR_HASH (d_px s') mod 64) = d_px s'"
proof (induction k arbitrary: s)
  case 0
  then show ?case by simp
next
  case (Suc k)
  from Suc.prems(1) obtain t where t: "dec_iter bytes chunks_len s = Some t"
    and rest: "dec_iters k bytes chunks_len t = Some s'"
    by (auto split: option.splits)
  from dec_iter_index_ok [OF t Suc.prems(2,3)] Suc.IH [OF rest] show ?case by blast
qed

lemma dec_init_index_ok:
  "length (d_index (dec_init p0)) = 64 \<and>
   d_index (dec_init p0) ! (QOI_COLOR_HASH (d_px (dec_init p0)) mod 64) = d_px (dec_init p0)"
  by (simp add: dec_init_def QOI_COLOR_HASH_def)

lemma list_update_same_val: "xs ! i = v \<Longrightarrow> xs[i := v] = xs"
  by (metis list_update_id)

lemma dec_iter_run_chunk:
  assumes "\<not> 0 < d_run s" "int (d_p s) < chunks_len"
    and "rd bytes (d_p s) = Some b1" "b1 \<noteq> 0xfe" "b1 \<noteq> 0xff" "b1 AND 0xc0 = 0xc0"
    and "d_index s ! (QOI_COLOR_HASH (d_px s) mod 64) = d_px s"
  shows "dec_iter bytes chunks_len s = Some (s\<lparr>d_p := d_p s + 1, d_run := uint (b1 AND 0x3f)\<rparr>)"
  using assms by (simp add: dec_iter_def dec_chunk_def list_update_same_val)

lemma dec_iter_stores_slot:
  assumes "\<not> 0 < d_run s" "int (d_p s) < chunks_len" "dec_iter bytes chunks_len s = Some s'"
  shows "d_index s' = (d_index s)[QOI_COLOR_HASH (d_px s') mod 64 := d_px s']"
proof -
  from assms obtain s1 where s1: "dec_chunk bytes s = Some s1"
    and s': "s' = s1\<lparr>d_index := (d_index s1)[QOI_COLOR_HASH (d_px s1) mod 64 := d_px s1]\<rparr>"
    by (auto simp: dec_iter_def split: Option.bind_splits)
  show ?thesis using dec_chunk_index [OF s1] by (simp add: s')
qed

text \<open>
  C7: after any number \<open>k\<close> of iterations of the decoding loop (any prefix of the chunk
  stream), the slot of the current pixel holds the current pixel; an iteration that reads
  a chunk stores the pixel it yields into its slot; and an iteration that reads a
  \<^verbatim>\<open>QOI_OP_RUN\<close> chunk leaves the index array and the pixel as they were.
\<close>

theorem decoder_index_consistent:
  assumes "dec_iters k bytes chunks_len (dec_init p0) = Some s"
  shows "length (d_index s) = 64 \<and>
         d_index s ! (QOI_COLOR_HASH (d_px s) mod 64) = d_px s \<and>
         (\<forall>s'. \<not> 0 < d_run s \<and> int (d_p s) < chunks_len \<and>
               dec_iter bytes chunks_len s = Some s' \<longrightarrow>
               d_index s' = (d_index s)[QOI_COLOR_HASH (d_px s') mod 64 := d_px s']) \<and>
         (\<forall>b1 s'. \<not> 0 < d_run s \<and> int (d_p s) < chunks_len \<and>
                  rd bytes (d_p s) = Some b1 \<and> b1 \<noteq> 0xfe \<and> b1 \<noteq> 0xff \<and> b1 AND 0xc0 = 0xc0 \<and>
                  dec_iter bytes chunks_len s = Some s' \<longrightarrow>
                  d_index s' = d_index s \<and> d_px s' = d_px s)"
proof -
  have ok: "length (d_index s) = 64 \<and> d_index s ! (QOI_COLOR_HASH (d_px s) mod 64) = d_px s"
    using dec_iters_index_ok [OF assms] dec_init_index_ok by blast
  have "d_index s' = d_index s \<and> d_px s' = d_px s"
    if "\<not> 0 < d_run s" "int (d_p s) < chunks_len" "rd bytes (d_p s) = Some b1"
       "b1 \<noteq> 0xfe" "b1 \<noteq> 0xff" "b1 AND 0xc0 = 0xc0" "dec_iter bytes chunks_len s = Some s'"
    for b1 s'
    using dec_iter_run_chunk [OF that(1-6)] ok that(7) by auto
  with ok dec_iter_stores_slot [of s chunks_len bytes] show ?thesis by blast
qed

theorem decoder_index_consistent_witness:
  "(let s = the (dec_iters 1 run_example 20 (dec_init 14)) in
     dec_iters 1 run_example 20 (dec_init 14) = Some s \<and>
     d_px s = \<lparr>rgba_r = 10, rgba_g = 20, rgba_b = 30, rgba_a = 40\<rparr> \<and>
     length (d_index s) = 64 \<and>
     d_index s ! (QOI_COLOR_HASH (d_px s) mod 64) = d_px s \<and>
     rd run_example (d_p s) = Some 0xc1 \<and>
     (\<exists>s'. dec_iter run_example 20 s = Some s' \<and> d_index s' = d_index s \<and> d_px s' = d_px s))"
proof -
  define s where "s = the (dec_iters 1 run_example 20 (dec_init 14))"
  have some: "dec_iters 1 run_example 20 (dec_init 14) \<noteq> None"
    by code_simp
  then have s: "dec_iters 1 run_example 20 (dec_init 14) = Some s"
    by (auto simp: s_def)
  have px: "d_px s = \<lparr>rgba_r = 10, rgba_g = 20, rgba_b = 30, rgba_a = 40\<rparr>"
    unfolding s_def by code_simp
  have r: "\<not> 0 < d_run s" "int (d_p s) < 20" "rd run_example (d_p s) = Some 0xc1"
    unfolding s_def by code_simp+
  have it: "dec_iter run_example 20 s \<noteq> None"
    unfolding s_def by code_simp
  then obtain s' where s': "dec_iter run_example 20 s = Some s'" by auto
  have b: "(0xc1 :: byte) \<noteq> 0xfe" "(0xc1 :: byte) \<noteq> 0xff" "(0xc1 :: byte) AND 0xc0 = 0xc0"
    by simp_all
  from decoder_index_consistent [OF s] r b s' px
  have "length (d_index s) = 64 \<and> d_index s ! (QOI_COLOR_HASH (d_px s) mod 64) = d_px s \<and>
        d_index s' = d_index s \<and> d_px s' = d_px s"
    by blast
  with s px r s' show ?thesis
    unfolding Let_def s_def [symmetric] by blast
qed

section \<open>Word lemmas and the run counter of the encoder\<close>

lemma m1: "(0xff000000 :: 32 word) = push_bit 24 (mask 8)" by (simp add: mask_eq_exp_minus_1)

lemma m2: "(0xff0000 :: 32 word) = push_bit 16 (mask 8)" by (simp add: mask_eq_exp_minus_1)

lemma m3: "(0xff00 :: 32 word) = push_bit 8 (mask 8)" by (simp add: mask_eq_exp_minus_1)

lemma m4: "(0xff :: 32 word) = mask 8" by (simp add: mask_eq_exp_minus_1)

lemma rw32: "push_bit 24 (ucast (ucast (drop_bit 24 (0xff000000 AND v)) :: 8 word)) OR
   push_bit 16 (ucast (ucast (drop_bit 16 (0xff0000 AND v)) :: 8 word)) OR
   push_bit 8 (ucast (ucast (drop_bit 8 (0xff00 AND v)) :: 8 word)) OR
   ucast (ucast (0xff AND v) :: 8 word) = (v :: 32 word)"
  unfolding m1 m2 m3 m4
  apply (rule bit_word_eqI)
  subgoal for n
    apply (cases "n < 8"; cases "n < 16"; cases "n < 24")
           apply (auto simp: bit_simps)
    done
  done

lemma bit40: "bit (0x40 :: byte) n \<longleftrightarrow> n = 6"
proof -
  have "(0x40 :: byte) = 2 ^ 6" by simp
  show ?thesis unfolding \<open>(0x40 :: byte) = 2 ^ 6\<close> by (simp only: bit_exp_iff) (auto simp: possible_bit_def)
qed

lemma bit80: "bit (0x80 :: byte) n \<longleftrightarrow> n = 7"
proof -
  have "(0x80 :: byte) = 2 ^ 7" by simp
  show ?thesis unfolding \<open>(0x80 :: byte) = 2 ^ 7\<close> by (simp only: bit_exp_iff) (auto simp: possible_bit_def)
qed

lemma b40: "(0x40 :: byte) = push_bit 6 1" by simp

lemma b80: "(0x80 :: byte) = push_bit 7 1" by simp

lemma bc0: "(0xc0 :: byte) = push_bit 6 (mask 2)" by (simp add: mask_eq_exp_minus_1)

lemma b03: "(0x03 :: byte) = mask 2" by (simp add: mask_eq_exp_minus_1)

lemma b3f: "(0x3f :: byte) = mask 6" by (simp add: mask_eq_exp_minus_1)

lemma b0f: "(0x0f :: byte) = mask 4" by (simp add: mask_eq_exp_minus_1)

lemma bias: "0 \<le> sint v + c \<Longrightarrow> sint v + c < 256 \<Longrightarrow> uint ((v :: byte) + word_of_int c) = sint v + c"
proof -
  assume a: "0 \<le> sint v + c" "sint v + c < 256"
  have "v + word_of_int c = word_of_int (sint v + c)" by simp
  then show ?thesis using a by (simp add: uint_word_of_int take_bit_int_eq_self del: of_int_add)
qed

lemma tb_of_uint: "uint (x :: byte) < 2 ^ n \<Longrightarrow> take_bit n x = x"
  by (simp add: take_bit_eq_mask mask_eq_iff)

lemma diff_tag: 
  fixes x y z :: byte
  defines "b1 \<equiv> 0x40 OR push_bit 4 (take_bit 2 x) OR push_bit 2 (take_bit 2 y) OR take_bit 2 z"
  shows "b1 AND 0xc0 = 0x40" "drop_bit 4 b1 AND 0x03 = take_bit 2 x" "drop_bit 2 b1 AND 0x03 = take_bit 2 y"
    "b1 AND 0x03 = take_bit 2 z"
  unfolding b1_def bc0 b03
  by (rule bit_word_eqI; simp only: bit_and_iff bit_or_iff bit_drop_bit_eq comp_apply bit40; auto simp: bit_simps)+

lemma luma_tag1:
  fixes x :: byte
  defines "b1 \<equiv> 0x80 OR take_bit 6 x"
  shows "b1 AND 0xc0 = 0x80" "b1 AND 0x3f = take_bit 6 x"
  unfolding b1_def bc0 b3f
  by (rule bit_word_eqI; simp only: bit_and_iff bit_or_iff bit_drop_bit_eq comp_apply bit80; auto simp: bit_simps)+

lemma luma_tag2:
  fixes y z :: byte
  defines "b2 \<equiv> push_bit 4 (take_bit 4 y) OR take_bit 4 z"
  shows "drop_bit 4 b2 AND 0x0f = take_bit 4 y" "b2 AND 0x0f = take_bit 4 z"
  unfolding b2_def b0f
  by (rule bit_word_eqI; auto simp: bit_simps)+

lemma run_tag:
  fixes x :: byte
  defines "b1 \<equiv> 0xc0 OR take_bit 6 x"
  shows "b1 AND 0xc0 = 0xc0" "b1 AND 0x3f = take_bit 6 x"
  unfolding b1_def bc0 b3f
  by (rule bit_word_eqI; auto simp: bit_simps)+

lemma index_tag:
  fixes x :: byte
  shows "take_bit 6 x AND 0xc0 = 0"
  unfolding bc0
  by (rule bit_word_eqI; auto simp: bit_simps)

lemma enc_loop_done:
  "\<not> (int px_pos < px_len \<and> 0 < chans) \<Longrightarrow> enc_loop pixels chans px_len px_pos s = []"
  by (subst enc_loop.simps) auto

lemma enc_loop_step:
  "int px_pos < px_len \<Longrightarrow> 0 < chans \<Longrightarrow>
   enc_loop pixels chans px_len px_pos s =
     fst (enc_px (int px_pos = px_len - int chans)
            (read_px pixels chans px_pos (e_px_prev s)) s) @
     enc_loop pixels chans px_len (px_pos + chans)
       (snd (enc_px (int px_pos = px_len - int chans)
               (read_px pixels chans px_pos (e_px_prev s)) s))"
  by (subst enc_loop.simps) (simp add: Let_def)

lemma enc_delta_not_run:
  "enc_delta px px_prev \<noteq> OP_RUN k" "OP_RUN k \<noteq> enc_delta px px_prev"
  by (simp_all add: enc_delta_def Let_def)

lemma enc_px_run_bounds:
  assumes "0 \<le> e_run s" "e_run s \<le> 61"
  shows "0 \<le> e_run (snd (enc_px at_end px s)) \<and> e_run (snd (enc_px at_end px s)) \<le> 61 \<and>
         (\<forall>k. OP_RUN k \<in> set (fst (enc_px at_end px s)) \<longrightarrow> 1 \<le> k \<and> k \<le> 62)"
  using assms by (auto simp: enc_px_def Let_def enc_delta_not_run)

lemma enc_loop_run_bounds:
  "0 \<le> e_run s \<Longrightarrow> e_run s \<le> 61 \<Longrightarrow>
   OP_RUN k \<in> set (enc_loop pixels chans px_len px_pos s) \<Longrightarrow> 1 \<le> k \<and> k \<le> 62"
proof (induction pixels chans px_len px_pos s rule: enc_loop.induct)
  case (1 pixels chans px_len px_pos s)
  show ?case
  proof (cases "int px_pos < px_len \<and> 0 < chans")
    case True
    let ?px = "read_px pixels chans px_pos (e_px_prev s)"
    let ?res = "enc_px (int px_pos = px_len - int chans) ?px s"
    note b = enc_px_run_bounds [OF "1.prems"(1,2), of "int px_pos = px_len - int chans" ?px]
    from "1.prems"(3) True
    consider "OP_RUN k \<in> set (fst ?res)"
      | "OP_RUN k \<in> set (enc_loop pixels chans px_len (px_pos + chans) (snd ?res))"
      by (auto simp: enc_loop_step)
    then show ?thesis
    proof cases
      case 1
      with b show ?thesis by blast
    next
      case 2
      show ?thesis
        using "1.IH" [OF True refl refl _ _ 2] b by blast
    qed
  next
    case False
    with "1.prems"(3) show ?thesis by (simp add: enc_loop_done)
  qed
qed

lemma uint_of_int_small: "0 \<le> k \<Longrightarrow> k < 256 \<Longrightarrow> uint (word_of_int k :: byte) = k"
  by (simp add: uint_word_of_int take_bit_int_eq_self)

lemma run_byte:
  assumes "1 \<le> k" "k \<le> 62"
  defines "b \<equiv> (0xc0 OR of_int (k - 1) :: byte)"
  shows "b AND 0xc0 = 0xc0" "uint (b AND 0x3f) = k - 1" "b \<noteq> 0xfe" "b \<noteq> 0xff"
proof -
  let ?x = "of_int (k - 1) :: byte"
  have u: "uint ?x = k - 1"
    using assms by (intro uint_of_int_small) auto
  then have "uint ?x < 2 ^ 6" using assms by simp
  then have t: "take_bit 6 ?x = ?x" by (rule tb_of_uint)
  have b: "b = 0xc0 OR take_bit 6 ?x" unfolding b_def t by (rule refl)
  show 1: "b AND 0xc0 = 0xc0" unfolding b by (rule run_tag)
  have 2: "b AND 0x3f = ?x" unfolding b using run_tag(2) [of ?x] t by simp
  then show 3: "uint (b AND 0x3f) = k - 1" using u by simp
  show "b \<noteq> 0xfe"
  proof
    assume "b = 0xfe"
    then have "b AND 0x3f = 0x3e" by simp
    then have "uint (b AND 0x3f) = 62" by simp
    with 3 assms show False by simp
  qed
  show "b \<noteq> 0xff"
  proof
    assume "b = 0xff"
    then have "b AND 0x3f = 0x3f" by simp
    then have "uint (b AND 0x3f) = 63" by simp
    with 3 assms show False by simp
  qed
qed

text \<open>
  C6: every \<^verbatim>\<open>QOI_OP_RUN\<close> chunk the encoder writes is written with \<^verbatim>\<open>run\<close> between 1
  and 62: its byte has the top two bits 11, is neither 0xfe nor 0xff, and its low six
  bits are \<open>run - 1\<close>, at most 61.
\<close>

theorem encoder_run_chunks_bounded:
  assumes "OP_RUN run \<in> set (enc_chunks data desc)"
  shows "1 \<le> run \<and> run \<le> 62 \<and>
         (\<exists>b. chunk_bytes (OP_RUN run) = [b] \<and> b AND 0xc0 = 0xc0 \<and> b \<noteq> 0xfe \<and> b \<noteq> 0xff \<and>
              uint (b AND 0x3f) = run - 1 \<and> uint (b AND 0x3f) \<le> 61)"
proof -
  have r: "1 \<le> run \<and> run \<le> 62"
    using assms unfolding enc_chunks_def
    by (rule enc_loop_run_bounds [rotated 2]) (simp_all add: enc_init_def)
  then show ?thesis
    using run_byte [of run] by simp
qed

theorem encoder_run_chunks_bounded_witness:
  "enc_chunks [10, 20, 30, 40, 10, 20, 30, 40, 10, 20, 30, 40] d_1x3 =
     [OP_RGBA 10 20 30 40, OP_RUN 2] \<and>
   (\<exists>b. chunk_bytes (OP_RUN 2) = [b] \<and> b AND 0xc0 = 0xc0 \<and> b \<noteq> 0xfe \<and> b \<noteq> 0xff \<and>
        uint (b AND 0x3f) = 2 - 1 \<and> uint (b AND 0x3f) \<le> 61)"
proof -
  have e: "enc_chunks [10, 20, 30, 40, 10, 20, 30, 40, 10, 20, 30, 40] d_1x3 =
     [OP_RGBA 10 20 30 40, OP_RUN 2]"
    by code_simp
  then have "OP_RUN 2 \<in> set (enc_chunks [10, 20, 30, 40, 10, 20, 30, 40, 10, 20, 30, 40] d_1x3)"
    by simp
  from encoder_run_chunks_bounded [OF this] e show ?thesis by blast
qed

section \<open>The length of the encoder's output\<close>

lemma length_enc_delta:
  "length (chunk_bytes (enc_delta px px_prev)) \<le> (if rgba_a px = rgba_a px_prev then 4 else 5)"
  by (simp add: enc_delta_def Let_def)

lemma enc_px_length:
  "length (concat (map chunk_bytes (fst (enc_px at_end px s)))) +
     (if 0 < e_run (snd (enc_px at_end px s)) then 1 else 0)
   \<le> (if rgba_a px = rgba_a (e_px_prev s) then 4 else 5) + (if 0 < e_run s then 1 else 0)"
  using length_enc_delta [of px "e_px_prev s"]
  by (auto simp: enc_px_def Let_def)

lemma read_px_alpha:
  "chans \<noteq> 4 \<Longrightarrow> rgba_a (read_px pixels chans px_pos px) = rgba_a px"
  by (simp add: read_px_def)

lemma enc_loop_length:
  "3 \<le> chans \<Longrightarrow> px_len \<le> int px_pos + int m * int chans \<Longrightarrow>
   length (concat (map chunk_bytes (enc_loop pixels chans px_len px_pos s)))
     \<le> (chans + 1) * m + (if 0 < e_run s then 1 else 0)"
proof (induction m arbitrary: px_pos s)
  case 0
  then show ?case by (simp add: enc_loop_done)
next
  case (Suc m)
  show ?case
  proof (cases "int px_pos < px_len")
    case True
    let ?px = "read_px pixels chans px_pos (e_px_prev s)"
    let ?res = "enc_px (int px_pos = px_len - int chans) ?px s"
    have step: "length (concat (map chunk_bytes (fst ?res))) + (if 0 < e_run (snd ?res) then 1 else 0)
        \<le> chans + 1 + (if 0 < e_run s then 1 else 0)"
    proof (cases "chans = 4")
      case True
      with enc_px_length [of "int px_pos = px_len - int chans" ?px s] show ?thesis
        by (simp split: if_splits)
    next
      case False
      with enc_px_length [of "int px_pos = px_len - int chans" ?px s] Suc.prems(1)
      show ?thesis by (simp add: read_px_alpha split: if_splits)
    qed
    have "px_len \<le> int (px_pos + chans) + int m * int chans"
      using Suc.prems(2) by (simp add: algebra_simps)
    from Suc.IH [OF Suc.prems(1) this, of "snd ?res"]
    have rest: "length (concat (map chunk_bytes
                  (enc_loop pixels chans px_len (px_pos + chans) (snd ?res))))
        \<le> (chans + 1) * m + (if 0 < e_run (snd ?res) then 1 else 0)" .
    have c: "0 < chans" using Suc.prems(1) by simp
    show ?thesis
      using step rest by (simp add: enc_loop_step [OF True c] split: if_splits)
  next
    case False
    then show ?thesis by (simp add: enc_loop_done)
  qed
qed

lemma padding_bytes: "replicate QOI_PADDING (0 :: byte) = [0, 0, 0, 0, 0, 0, 0, 0]"
  by code_simp

lemma length_qoi_write_32: "length (qoi_write_32 v) = 4"
  by (simp add: qoi_write_32_def)

lemma length_enc_header: "length (enc_header desc) = 14"
  by (simp add: enc_header_def length_qoi_write_32)

lemma sint_le_uint: "sint (x :: 32 word) \<le> uint x"
proof -
  have "- (2 ^ 31) \<le> (0 :: int)" by simp
  then have "- (2 ^ 31) \<le> uint x" using uint_nonnegative [of x] by (rule order_trans)
  then show ?thesis by (simp add: sint_uint signed_take_bit_int_less_eq_self_iff)
qed

lemma uint_mult_le: "uint (x * y :: 32 word) \<le> uint x * uint y"
  by (simp add: uint_word_ariths zmod_le_nonneg_dividend)

lemma uint_prod3_le: "uint (x * y * z :: 32 word) \<le> uint x * uint y * uint z"
proof -
  have "uint (x * y * z) \<le> uint (x * y) * uint z" by (rule uint_mult_le)
  also have "\<dots> \<le> uint x * uint y * uint z"
    by (intro mult_right_mono uint_mult_le) simp
  finally show ?thesis .
qed

lemma enc_px_len_le:
  "enc_px_len desc \<le> int (unat (width desc) * unat (height desc) * unat (channels desc))"
proof -
  have "enc_px_len desc \<le> uint (width desc * height desc * ucast (channels desc))"
    unfolding enc_px_len_def by (rule sint_le_uint)
  also have "\<dots> \<le> uint (width desc) * uint (height desc) * uint (ucast (channels desc) :: 32 word)"
    by (rule uint_prod3_le)
  also have "uint (ucast (channels desc) :: 32 word) = uint (channels desc)"
    by (simp add: uint_up_ucast is_up)
  finally have "enc_px_len desc \<le> uint (width desc) * uint (height desc) * uint (channels desc)" .
  then show ?thesis by (simp only: uint_nat of_nat_mult)
qed

lemma sint_of_nat_small:
  assumes "n < 2 ^ 31"
  shows "sint (of_nat n :: 32 word) = int n"
proof -
  have a: "- (2 ^ 31) \<le> int n" by (rule order_trans [of _ 0]) simp_all
  have b: "int n < 2 ^ 31" using assms by (metis of_nat_less_iff of_nat_numeral of_nat_power)
  have "sint (of_nat n :: 32 word) = signed_take_bit 31 (int n)"
    by (simp only: signed_of_nat) simp
  then show ?thesis using signed_take_bit_int_eq_self [OF a b] by simp
qed

lemma word_prod_of_nat:
  "(w :: 32 word) * h * ucast (c :: byte) = of_nat (unat w * unat h * unat c)"
proof -
  have "(ucast c :: 32 word) = of_nat (unat c)" by simp
  then show ?thesis by (simp only: of_nat_mult of_nat_unat ucast_id)
qed

lemma word_size_of_nat:
  "(w :: 32 word) * h * (ucast (c :: byte) + 1) + 14 + 8 =
   of_nat (unat w * unat h * (unat c + 1) + 14 + 8)"
proof -
  have "(ucast c :: 32 word) = of_nat (unat c)" by simp
  then show ?thesis by (simp only: of_nat_mult of_nat_add of_nat_unat ucast_id of_nat_numeral of_nat_1)
qed

lemma word_prod_of_nat':
  "(w :: 32 word) * h * of_nat c = of_nat (unat w * unat h * c)"
  by (simp only: of_nat_mult of_nat_unat ucast_id)

lemma enc_px_len_exact:
  assumes "unat (width desc) * unat (height desc) * unat (channels desc) < 2 ^ 31"
  shows "enc_px_len desc = int (unat (width desc) * unat (height desc) * unat (channels desc))"
  unfolding enc_px_len_def word_prod_of_nat by (rule sint_of_nat_small [OF assms])

lemma max_size_exact:
  assumes "unat (width desc) * unat (height desc) * (unat (channels desc) + 1) + 14 + 8 < 2 ^ 31"
  shows "max_size desc =
           int (unat (width desc) * unat (height desc) * (unat (channels desc) + 1) + 14 + 8)"
  unfolding max_size_def word_size_of_nat by (rule sint_of_nat_small [OF assms])

lemma enc_bytes_length:
  assumes "\<not> channels desc < 3"
  shows "length (enc_bytes data desc) \<le>
           unat (width desc) * unat (height desc) * (unat (channels desc) + 1) + 14 + 8"
proof -
  let ?m = "unat (width desc) * unat (height desc)"
  let ?c = "unat (channels desc)"
  from assms have c3: "3 \<le> ?c" by (simp add: word_less_nat_alt)
  have "enc_px_len desc \<le> int 0 + int ?m * int ?c"
    using enc_px_len_le [of desc] by simp
  from enc_loop_length [OF c3 this, of data enc_init]
  have "length (concat (map chunk_bytes (enc_chunks data desc))) \<le> (?c + 1) * ?m"
    by (simp add: enc_chunks_def enc_init_def)
  then show ?thesis
    by (simp add: enc_bytes_def length_enc_header QOI_PADDING_def mult.commute)
qed

lemma qoi_encode_Inr:
  assumes "qoi_encode data desc = Inr out"
  shows "out = enc_bytes data desc" "width desc \<noteq> 0" "height desc \<noteq> 0"
    "\<not> channels desc < 3" "\<not> channels desc > 4" "\<not> colorspace desc > 2"
    "int (length out) \<le> max_size desc"
  using assms by (auto simp: qoi_encode_def split: if_splits)

lemma qoi_encode_fits:
  assumes "width desc \<noteq> 0" "height desc \<noteq> 0" "3 \<le> channels desc" "channels desc \<le> 4"
    "colorspace desc \<le> 2"
    and "unat (width desc) * unat (height desc) * (unat (channels desc) + 1) + 14 + 8 < 2 ^ 31"
  shows "qoi_encode data desc = Inr (enc_bytes data desc)"
proof -
  have v: "\<not> (width desc = 0 \<or> height desc = 0 \<or> channels desc < 3 \<or> channels desc > 4 \<or>
              colorspace desc > 2)"
    using assms(1-5) by (auto simp: not_less)
  then have c: "\<not> channels desc < 3" by simp
  have "int (length (enc_bytes data desc)) \<le> max_size desc"
    unfolding max_size_exact [OF assms(6)] using enc_bytes_length [OF c, of data]
    by (simp only: of_nat_le_iff)
  moreover have "0 \<le> max_size desc"
    unfolding max_size_exact [OF assms(6)] by simp
  ultimately show ?thesis
    unfolding qoi_encode_def using v by (simp add: not_less)
qed




section \<open>Colorspace 2, alpha of RGB input, 32-bit overflow of the pixel count\<close>

text \<open>
  C3: the claim fails on the code at colorspace 2. Both checks are \<^verbatim>\<open>colorspace > 2\<close>:
  a descriptor with colorspace 2 is encoded, and a header with colorspace byte 2 is
  decoded. Colorspace 3 is rejected by both.
\<close>

theorem colorspace_2_accepted:
  "qoi_encode [0, 0, 0, 0] d_cs2 =
     Inr [0x71, 0x6f, 0x69, 0x66, 0, 0, 0, 1, 0, 0, 0, 1, 4, 2, 0xc0, 0, 0, 0, 0, 0, 0, 0, 0] \<and>
   qoi_decode
     [0x71, 0x6f, 0x69, 0x66, 0, 0, 0, 1, 0, 0, 0, 1, 4, 2, 0xc0, 0, 0, 0, 0, 0, 0, 0, 0] 0 =
     Inr ([0, 0, 0, 0], d_cs2) \<and>
   qoi_encode [0, 0, 0, 0] (d_cs2\<lparr>colorspace := 3\<rparr>) = Inl InvalidDescriptor \<and>
   qoi_decode
     [0x71, 0x6f, 0x69, 0x66, 0, 0, 0, 1, 0, 0, 0, 1, 4, 3, 0xc0, 0, 0, 0, 0, 0, 0, 0, 0] 0 =
     Inl BadHeader"
  by code_simp

text \<open>
  C2 fails as stated: one RGB pixel (10, 20, 30), encoded and then decoded with 4 output
  channels, comes back with alpha 0, not 255.
\<close>

theorem rgb_alpha_is_not_255:
  "qoi_encode [10, 20, 30] d_rgb =
     Inr [0x71, 0x6f, 0x69, 0x66, 0, 0, 0, 1, 0, 0, 0, 1, 3, 0, 0xfe, 10, 20, 30,
          0, 0, 0, 0, 0, 0, 0, 0] \<and>
   qoi_decode
     [0x71, 0x6f, 0x69, 0x66, 0, 0, 0, 1, 0, 0, 0, 1, 3, 0, 0xfe, 10, 20, 30,
      0, 0, 0, 0, 0, 0, 0, 0] 4 = Inr ([10, 20, 30, 0], d_rgb) \<and>
   [10, 20, 30, 0 :: byte] ! 3 \<noteq> 255"
  by code_simp

lemma enc_chunks_huge4: "enc_chunks data d_huge4 = []"
  by (simp add: enc_chunks_def enc_px_len_def d_huge4_def enc_loop_done)

lemma encode_huge4:
  "qoi_encode data d_huge4 =
     Inr [0x71, 0x6f, 0x69, 0x66, 0, 1, 0, 0, 0, 1, 0, 0, 4, 0, 0, 0, 0, 0, 0, 0, 0, 0]"
proof -
  have h: "enc_header d_huge4 = [0x71, 0x6f, 0x69, 0x66, 0, 1, 0, 0, 0, 1, 0, 0, 4, 0]"
    by code_simp
  have v: "\<not> (width d_huge4 = 0 \<or> height d_huge4 = 0 \<or> channels d_huge4 < 3 \<or>
               channels d_huge4 > 4 \<or> colorspace d_huge4 > 2)"
    by (simp add: d_huge4_def)
  have m: "max_size d_huge4 = 22"
    by (simp add: max_size_def d_huge4_def)
  show ?thesis
    unfolding qoi_encode_def enc_bytes_def m using v
    by (simp add: h enc_chunks_huge4 padding_bytes)
qed

text \<open>
  C1 fails as stated where the pixel count overflows 32 bits: for a 65536 x 65536 RGBA
  image \<^verbatim>\<open>desc->width * desc->height\<close> is 0 in \<^verbatim>\<open>unsigned int\<close>, so the encoder
  writes the header and the padding only, whatever the \<open>2^34\<close> bytes of the buffer are,
  and the decoder returns no pixels.
\<close>

theorem roundtrip4_fails_on_overflow:
  "length (replicate 17179869184 (0 :: byte)) = unat (width d_huge4) * unat (height d_huge4) * 4 \<and>
   qoi_encode (replicate 17179869184 0) d_huge4 =
     Inr [0x71, 0x6f, 0x69, 0x66, 0, 1, 0, 0, 0, 1, 0, 0, 4, 0, 0, 0, 0, 0, 0, 0, 0, 0] \<and>
   qoi_decode [0x71, 0x6f, 0x69, 0x66, 0, 1, 0, 0, 0, 1, 0, 0, 4, 0, 0, 0, 0, 0, 0, 0, 0, 0] 4 =
     Inr ([], d_huge4) \<and>
   [] \<noteq> replicate 17179869184 (0 :: byte)"
proof -
  have "qoi_decode [0x71, 0x6f, 0x69, 0x66, 0, 1, 0, 0, 0, 1, 0, 0, 4, 0, 0, 0, 0, 0, 0, 0, 0, 0] 4 =
     Inr ([], d_huge4)"
    by code_simp
  moreover have "unat (width d_huge4) * unat (height d_huge4) * 4 = 17179869184"
    by (simp add: d_huge4_def)
  ultimately show ?thesis
    by (simp add: encode_huge4)
qed

section \<open>Decoding one chunk of the encoder\<close>

lemma rd_chunk:
  "i < length xs \<Longrightarrow> rd (pre @ xs @ rest) (length pre + i) = Some (xs ! i)"
  by (simp add: rd_def nth_append)

lemma rd_chunk0:
  "rd (pre @ (x # xs) @ rest) (length pre) = Some x"
  using rd_chunk [of 0 "x # xs" pre rest] by simp

lemma tag_distinct:
  fixes b1 :: byte
  shows "b1 AND 0xc0 = 0x40 \<Longrightarrow> b1 \<noteq> 0xfe \<and> b1 \<noteq> 0xff \<and> b1 AND 0xc0 \<noteq> 0"
    and "b1 AND 0xc0 = 0x80 \<Longrightarrow> b1 \<noteq> 0xfe \<and> b1 \<noteq> 0xff \<and> b1 AND 0xc0 \<noteq> 0 \<and> b1 AND 0xc0 \<noteq> 0x40"
    and "b1 AND 0xc0 = 0 \<Longrightarrow> b1 \<noteq> 0xfe \<and> b1 \<noteq> 0xff"
  by auto

lemma dec_chunk_run:
  assumes "1 \<le> k" "k \<le> 62" "d_p s = length pre"
  shows "dec_chunk (pre @ chunk_bytes (OP_RUN k) @ rest) s =
           Some (s\<lparr>d_p := length pre + 1, d_run := k - 1\<rparr>)"
proof -
  define b where "b = (0xc0 OR of_int (k - 1) :: byte)"
  note rb = run_byte [OF assms(1,2), folded b_def]
  have r: "rd (pre @ [b] @ rest) (length pre) = Some b" by (rule rd_chunk0)
  have "chunk_bytes (OP_RUN k) = [b]" by (simp add: b_def)
  then show ?thesis
    using rb r by (simp add: dec_chunk_def assms(3))
qed

lemma index_byte:
  assumes "pos < 64"
  defines "b \<equiv> (0x00 OR of_nat pos :: byte)"
  shows "b AND 0xc0 = 0" "unat b = pos"
proof -
  have u: "unat (of_nat pos :: byte) = pos"
    using assms by (simp add: unat_of_nat)
  then have "uint (of_nat pos :: byte) < 2 ^ 6"
    using assms(1) by (simp add: uint_nat)
  then have t: "take_bit 6 (of_nat pos :: byte) = of_nat pos" by (rule tb_of_uint)
  have b: "b = take_bit 6 (of_nat pos :: byte)" unfolding t by (simp add: b_def)
  show "b AND 0xc0 = 0" unfolding b by (rule index_tag)
  show "unat b = pos" using u by (simp add: b_def)
qed

lemma dec_chunk_index_op:
  assumes "pos < 64" "d_p s = length pre"
  shows "dec_chunk (pre @ chunk_bytes (OP_INDEX pos) @ rest) s =
           Some (s\<lparr>d_p := length pre + 1, d_px := d_index s ! pos\<rparr>)"
proof -
  define b where "b = (0x00 OR of_nat pos :: byte)"
  note ib = index_byte [OF assms(1), folded b_def]
  note td = tag_distinct(3) [OF ib(1)]
  have r: "rd (pre @ [b] @ rest) (length pre) = Some b" by (rule rd_chunk0)
  have "chunk_bytes (OP_INDEX pos) = [b]" by (simp add: b_def)
  then show ?thesis
    using ib td r by (simp add: dec_chunk_def assms(2))
qed

lemma biased_small:
  fixes v :: byte
  assumes "lo < sint v" "sint v < hi" "0 \<le> lo + 1 + c" "hi + c \<le> 2 ^ n" "n \<le> 8"
  shows "take_bit n (v + word_of_int c) = v + word_of_int c"
proof -
  have "(2 :: int) ^ n \<le> 2 ^ 8" using assms(5) by (intro power_increasing) auto
  then have "sint v + c < 256" using assms(2,4) by simp
  moreover have "0 \<le> sint v + c" using assms(1,3) by simp
  ultimately have "uint (v + word_of_int c) = sint v + c" by (intro bias)
  then have "uint (v + word_of_int c) < 2 ^ n" using assms(2,4) by simp
  then show ?thesis by (rule tb_of_uint)
qed

lemma dec_chunk_diff:
  fixes vr vg vb :: byte
  assumes "- 3 < sint vr" "sint vr < 2" "- 3 < sint vg" "sint vg < 2" "- 3 < sint vb" "sint vb < 2"
    and "d_p s = length pre"
  shows "dec_chunk (pre @ chunk_bytes (OP_DIFF vr vg vb) @ rest) s =
           Some (s\<lparr>d_p := length pre + 1,
                   d_px := (d_px s)\<lparr>rgba_r := rgba_r (d_px s) + vr,
                                    rgba_g := rgba_g (d_px s) + vg,
                                    rgba_b := rgba_b (d_px s) + vb\<rparr>\<rparr>)"
proof -
  define b where "b = (0x40 OR push_bit 4 (vr + 2) OR push_bit 2 (vg + 2) OR (vb + 2) :: byte)"
  have t: "take_bit 2 (vr + 2) = vr + 2" "take_bit 2 (vg + 2) = vg + 2" "take_bit 2 (vb + 2) = vb + 2"
    using biased_small [of "- 3" vr 2 2 2] biased_small [of "- 3" vg 2 2 2]
      biased_small [of "- 3" vb 2 2 2] assms by simp_all
  have b: "b = 0x40 OR push_bit 4 (take_bit 2 (vr + 2)) OR push_bit 2 (take_bit 2 (vg + 2)) OR
               take_bit 2 (vb + 2)"
    unfolding t by (simp add: b_def)
  have tag: "b AND 0xc0 = 0x40" unfolding b by (rule diff_tag)
  have f: "drop_bit 4 b AND 0x03 = vr + 2" "drop_bit 2 b AND 0x03 = vg + 2" "b AND 0x03 = vb + 2"
    unfolding b using diff_tag(2-4) [of "vr + 2" "vg + 2" "vb + 2"] t by simp_all
  note td = tag_distinct(1) [OF tag]
  have r: "rd (pre @ [b] @ rest) (length pre) = Some b" by (rule rd_chunk0)
  have "chunk_bytes (OP_DIFF vr vg vb) = [b]" by (simp add: b_def)
  then show ?thesis
    using td tag r by (simp add: dec_chunk_def assms(7) f)
qed

lemma dec_chunk_luma:
  fixes vg vg_r vg_b :: byte
  assumes "- 9 < sint vg_r" "sint vg_r < 8" "- 33 < sint vg" "sint vg < 32"
    "- 9 < sint vg_b" "sint vg_b < 8"
    and "d_p s = length pre"
  shows "dec_chunk (pre @ chunk_bytes (OP_LUMA vg vg_r vg_b) @ rest) s =
           Some (s\<lparr>d_p := length pre + 2,
                   d_px := (d_px s)\<lparr>rgba_r := rgba_r (d_px s) + (vg + vg_r),
                                    rgba_g := rgba_g (d_px s) + vg,
                                    rgba_b := rgba_b (d_px s) + (vg + vg_b)\<rparr>\<rparr>)"
proof -
  define b1 where "b1 = (0x80 OR (vg + 32) :: byte)"
  define b2 where "b2 = (push_bit 4 (vg_r + 8) OR (vg_b + 8) :: byte)"
  have t: "take_bit 6 (vg + 32) = vg + 32" "take_bit 4 (vg_r + 8) = vg_r + 8"
    "take_bit 4 (vg_b + 8) = vg_b + 8"
    using biased_small [of "- 33" vg 32 32 6] biased_small [of "- 9" vg_r 8 8 4]
      biased_small [of "- 9" vg_b 8 8 4] assms by simp_all
  have b1: "b1 = 0x80 OR take_bit 6 (vg + 32)" unfolding t by (simp add: b1_def)
  have b2: "b2 = push_bit 4 (take_bit 4 (vg_r + 8)) OR take_bit 4 (vg_b + 8)"
    unfolding t by (simp add: b2_def)
  have tag: "b1 AND 0xc0 = 0x80" unfolding b1 by (rule luma_tag1)
  have f: "b1 AND 0x3f = vg + 32" "drop_bit 4 b2 AND 0x0f = vg_r + 8" "b2 AND 0x0f = vg_b + 8"
    unfolding b1 b2
    using luma_tag1(2) [of "vg + 32"] luma_tag2 [of "vg_r + 8" "vg_b + 8"] t by simp_all
  note td = tag_distinct(2) [OF tag]
  have r: "rd (pre @ [b1, b2] @ rest) (length pre) = Some b1"
    "rd (pre @ [b1, b2] @ rest) (length pre + 1) = Some b2"
    using rd_chunk [of 0 "[b1, b2]" pre rest] rd_chunk [of 1 "[b1, b2]" pre rest] by simp_all
  have "chunk_bytes (OP_LUMA vg vg_r vg_b) = [b1, b2]" by (simp add: b1_def b2_def)
  then show ?thesis
    using td tag r by (simp add: dec_chunk_def assms(7) f Let_def)
qed

lemma dec_chunk_rgb:
  assumes "d_p s = length pre"
  shows "dec_chunk (pre @ chunk_bytes (OP_RGB cr cg cb) @ rest) s =
           Some (s\<lparr>d_p := length pre + 4,
                   d_px := (d_px s)\<lparr>rgba_r := cr, rgba_g := cg, rgba_b := cb\<rparr>\<rparr>)"
  using rd_chunk [of 0 "[0xfe, cr, cg, cb]" pre rest] rd_chunk [of 1 "[0xfe, cr, cg, cb]" pre rest]
    rd_chunk [of 2 "[0xfe, cr, cg, cb]" pre rest] rd_chunk [of 3 "[0xfe, cr, cg, cb]" pre rest]
  by (simp add: dec_chunk_def assms)

lemma dec_chunk_rgba:
  assumes "d_p s = length pre"
  shows "dec_chunk (pre @ chunk_bytes (OP_RGBA cr cg cb ca) @ rest) s =
           Some (s\<lparr>d_p := length pre + 5,
                   d_px := \<lparr>rgba_r = cr, rgba_g = cg, rgba_b = cb, rgba_a = ca\<rparr>\<rparr>)"
  using rd_chunk [of 0 "[0xff, cr, cg, cb, ca]" pre rest]
    rd_chunk [of 1 "[0xff, cr, cg, cb, ca]" pre rest]
    rd_chunk [of 2 "[0xff, cr, cg, cb, ca]" pre rest]
    rd_chunk [of 3 "[0xff, cr, cg, cb, ca]" pre rest]
    rd_chunk [of 4 "[0xff, cr, cg, cb, ca]" pre rest]
  by (simp add: dec_chunk_def assms)

lemma dec_chunk_delta:
  assumes "d_p s = length pre"
  shows "dec_chunk (pre @ chunk_bytes (enc_delta px (d_px s)) @ rest) s =
           Some (s\<lparr>d_p := length pre + length (chunk_bytes (enc_delta px (d_px s))),
                   d_px := px\<rparr>)"
proof -
  obtain pr pg pb pa where px: "px = \<lparr>rgba_r = pr, rgba_g = pg, rgba_b = pb, rgba_a = pa\<rparr>"
    by (cases px) simp
  obtain qr qg qb qa where q: "d_px s = \<lparr>rgba_r = qr, rgba_g = qg, rgba_b = qb, rgba_a = qa\<rparr>"
    by (cases "d_px s") simp
  show ?thesis
  proof (cases "pa = qa")
    case False
    then show ?thesis
      using dec_chunk_rgba [OF assms, of pr pg pb pa rest]
      by (simp add: enc_delta_def px q)
  next
    case True
    let ?vr = "pr - qr" and ?vg = "pg - qg" and ?vb = "pb - qb"
    consider (diff) "sint ?vr > -3 \<and> sint ?vr < 2 \<and> sint ?vg > -3 \<and> sint ?vg < 2 \<and>
                     sint ?vb > -3 \<and> sint ?vb < 2"
      | (luma) "\<not> (sint ?vr > -3 \<and> sint ?vr < 2 \<and> sint ?vg > -3 \<and> sint ?vg < 2 \<and>
                     sint ?vb > -3 \<and> sint ?vb < 2)"
          "sint (?vr - ?vg) > -9 \<and> sint (?vr - ?vg) < 8 \<and> sint ?vg > -33 \<and> sint ?vg < 32 \<and>
           sint (?vb - ?vg) > -9 \<and> sint (?vb - ?vg) < 8"
      | (rgb) "\<not> (sint ?vr > -3 \<and> sint ?vr < 2 \<and> sint ?vg > -3 \<and> sint ?vg < 2 \<and>
                     sint ?vb > -3 \<and> sint ?vb < 2)"
          "\<not> (sint (?vr - ?vg) > -9 \<and> sint (?vr - ?vg) < 8 \<and> sint ?vg > -33 \<and> sint ?vg < 32 \<and>
           sint (?vb - ?vg) > -9 \<and> sint (?vb - ?vg) < 8)"
      by blast
    then show ?thesis
    proof cases
      case diff
      then have e: "enc_delta px (d_px s) = OP_DIFF ?vr ?vg ?vb"
        using True by (simp add: enc_delta_def px q Let_def)
      show ?thesis
        unfolding e using dec_chunk_diff [OF _ _ _ _ _ _ assms, of ?vr ?vg ?vb rest] diff True
        by (simp add: px q)
    next
      case luma
      then have e: "enc_delta px (d_px s) = OP_LUMA ?vg (?vr - ?vg) (?vb - ?vg)"
        using True by (simp add: enc_delta_def px q Let_def)
      show ?thesis
        unfolding e
        using dec_chunk_luma [OF _ _ _ _ _ _ assms, of "?vr - ?vg" ?vg "?vb - ?vg" rest] luma(2) True
        by (simp add: px q)
    next
      case rgb
      then have e: "enc_delta px (d_px s) = OP_RGB pr pg pb"
        using True by (simp add: enc_delta_def px q Let_def)
      show ?thesis
        unfolding e using dec_chunk_rgb [OF assms, of pr pg pb rest] True
        by (simp add: px q)
    qed
  qed
qed

section \<open>Decoding runs and pixel chunks in the loop\<close>

lemma dec_iter_chunk:
  "d_run s = 0 \<Longrightarrow> int (d_p s) < chunks_len \<Longrightarrow> dec_chunk bytes s = Some s1 \<Longrightarrow>
   dec_iter bytes chunks_len s =
     Some (s1\<lparr>d_index := (d_index s1)[QOI_COLOR_HASH (d_px s1) mod 64 := d_px s1]\<rparr>)"
  by (simp add: dec_iter_def)

lemma dec_loop_step_Some:
  "int q < px_len \<Longrightarrow> 0 < co \<Longrightarrow> dec_iter bytes chunks_len s = Some s' \<Longrightarrow>
   dec_loop bytes chunks_len co px_len (q + co) s' = Some out \<Longrightarrow>
   dec_loop bytes chunks_len co px_len q s = Some (px_out co (d_px s') @ out)"
  by (simp add: dec_loop_step)

lemma loop_pos_less:
  assumes "0 < co" "int (q + Suc k * co) \<le> px_len"
  shows "int q < px_len"
proof -
  have "q < q + Suc k * co" using assms(1) by simp
  then have "int q < int (q + Suc k * co)" by (simp only: of_nat_less_iff)
  then show ?thesis using assms(2) by linarith
qed

lemma dec_loop_run:
  "d_run s = int k \<Longrightarrow> 0 < co \<Longrightarrow> int (q + k * co) \<le> px_len \<Longrightarrow>
   dec_loop bytes chunks_len co px_len (q + k * co) (s\<lparr>d_run := 0\<rparr>) = Some out \<Longrightarrow>
   dec_loop bytes chunks_len co px_len q s =
     Some (concat (replicate k (px_out co (d_px s))) @ out)"
proof (induction k arbitrary: q s)
  case 0
  then have "s\<lparr>d_run := 0\<rparr> = s" by simp
  with 0 show ?case by simp
next
  case (Suc k)
  let ?s' = "s\<lparr>d_run := int k\<rparr>"
  have it: "dec_iter bytes chunks_len s = Some ?s'"
    using Suc.prems(1) by (simp add: dec_iter_def)
  have lt: "int q < px_len" using Suc.prems(2,3) by (rule loop_pos_less)
  have "dec_loop bytes chunks_len co px_len (q + co) ?s' =
          Some (concat (replicate k (px_out co (d_px ?s'))) @ out)"
    using Suc.prems by (intro Suc.IH) (simp_all add: algebra_simps)
  from dec_loop_step_Some [OF lt Suc.prems(2) it this] show ?case by simp
qed

lemma dec_loop_run_chunk:
  assumes "1 \<le> k" "k \<le> 62" "d_p s = length pre" "d_run s = 0"
    and "d_index s ! (QOI_COLOR_HASH (d_px s) mod 64) = d_px s"
    and "int (length pre) < chunks_len" "0 < co" "int (q + k * co) \<le> px_len"
    and "bytes = pre @ chunk_bytes (OP_RUN (int k)) @ rest"
    and "dec_loop bytes chunks_len co px_len (q + k * co) (s\<lparr>d_p := length pre + 1\<rparr>) = Some out"
  shows "dec_loop bytes chunks_len co px_len q s =
           Some (concat (replicate k (px_out co (d_px s))) @ out)"
proof -
  let ?s1 = "s\<lparr>d_p := length pre + 1, d_run := int k - 1\<rparr>"
  obtain j where k: "k = Suc j" using assms(1) by (cases k) auto
  have c: "dec_chunk bytes s = Some ?s1"
    unfolding assms(9) using assms(1,2) by (intro dec_chunk_run assms(3)) auto
  have it: "dec_iter bytes chunks_len s = Some ?s1"
    using dec_iter_chunk [OF assms(4) _ c, of chunks_len] assms(3,5,6)
    by (simp add: list_update_same_val)
  have lt: "int q < px_len" using assms(7,8) unfolding k by (rule loop_pos_less)
  have s: "s\<lparr>d_p := x, d_run := 0\<rparr> = s\<lparr>d_p := x\<rparr>" for x
    using assms(4) by (cases s) simp
  have "dec_loop bytes chunks_len co px_len (q + co) ?s1 =
          Some (concat (replicate j (px_out co (d_px ?s1))) @ out)"
    using assms(7,8,10) k by (intro dec_loop_run) (simp_all add: s algebra_simps)
  from dec_loop_step_Some [OF lt assms(7) it this] show ?thesis by (simp add: k)
qed

lemma dec_loop_pixel_chunk:
  assumes "dec_chunk bytes s = Some s1" "d_run s = 0" "int (d_p s) < chunks_len"
    and "0 < co" "int q < px_len"
    and "dec_loop bytes chunks_len co px_len (q + co)
          (s1\<lparr>d_index := (d_index s1)[QOI_COLOR_HASH (d_px s1) mod 64 := d_px s1]\<rparr>) = Some out"
  shows "dec_loop bytes chunks_len co px_len q s = Some (px_out co (d_px s1) @ out)"
  using dec_loop_step_Some [OF assms(5,4) dec_iter_chunk [OF assms(2,3,1)] assms(6)] by simp

section \<open>The cases of the encoder's loop body\<close>

lemma enc_px_repeat_flush:
  "px = e_px_prev s \<Longrightarrow> e_run s + 1 = 62 \<or> at_end \<Longrightarrow>
   enc_px at_end px s = ([OP_RUN (e_run s + 1)], s\<lparr>e_run := 0, e_px_prev := px\<rparr>)"
  by (simp add: enc_px_def Let_def)

lemma enc_px_repeat_cont:
  "px = e_px_prev s \<Longrightarrow> \<not> (e_run s + 1 = 62 \<or> at_end) \<Longrightarrow>
   enc_px at_end px s = ([], s\<lparr>e_run := e_run s + 1, e_px_prev := px\<rparr>)"
  by (simp add: enc_px_def Let_def)

lemma enc_px_index:
  "px \<noteq> e_px_prev s \<Longrightarrow> e_index s ! (QOI_COLOR_HASH px mod 64) = px \<Longrightarrow>
   enc_px at_end px s =
     ((if 0 < e_run s then [OP_RUN (e_run s)] else []) @ [OP_INDEX (QOI_COLOR_HASH px mod 64)],
      s\<lparr>e_run := 0, e_px_prev := px\<rparr>)"
  by (simp add: enc_px_def Let_def)

lemma enc_px_delta:
  "px \<noteq> e_px_prev s \<Longrightarrow> e_index s ! (QOI_COLOR_HASH px mod 64) \<noteq> px \<Longrightarrow>
   enc_px at_end px s =
     ((if 0 < e_run s then [OP_RUN (e_run s)] else []) @ [enc_delta px (e_px_prev s)],
      s\<lparr>e_index := (e_index s)[QOI_COLOR_HASH px mod 64 := px], e_run := 0, e_px_prev := px\<rparr>)"
  by (simp add: enc_px_def Let_def)

lemma drop_4: "i + 4 \<le> length xs \<Longrightarrow>
  drop i xs = xs ! i # xs ! (i + 1) # xs ! (i + 2) # xs ! (i + 3) # drop (i + 4) xs"
  by (simp add: Cons_nth_drop_Suc numeral_eq_Suc)

lemma drop_3: "i + 3 \<le> length xs \<Longrightarrow>
  drop i xs = xs ! i # xs ! (i + 1) # xs ! (i + 2) # drop (i + 3) xs"
  by (simp add: Cons_nth_drop_Suc numeral_eq_Suc)

lemma to_pixels_read_px:
  assumes "ci = 3 \<or> ci = 4" "px_pos + ci \<le> length P" "ci \<noteq> 4 \<longrightarrow> rgba_a px0 = al"
  shows "to_pixels ci al (drop px_pos P) =
           read_px P ci px_pos px0 # to_pixels ci al (drop (px_pos + ci) P)"
proof (cases "ci = 4")
  case True
  then show ?thesis
    using assms(2) by (simp add: to_pixels_def read_px_def drop_4 [of px_pos P])
next
  case False
  then have c: "ci = 3" using assms(1) by simp
  obtain qr qg qb qa where q: "px0 = \<lparr>rgba_r = qr, rgba_g = qg, rgba_b = qb, rgba_a = qa\<rparr>"
    by (cases px0) simp
  show ?thesis
    using assms(2,3) by (simp add: c to_pixels_def read_px_def drop_3 [of px_pos P] q)
qed

lemma dec_loop_flush:
  assumes "r \<le> 61" "d_p s = length pre" "d_run s = 0"
    and "d_index s ! (QOI_COLOR_HASH (d_px s) mod 64) = d_px s"
    and "0 < r \<longrightarrow> int (length pre) < chunks_len" "0 < co" "int (q + r * co) \<le> px_len"
    and "bytes = pre @ concat (map chunk_bytes (if 0 < int r then [OP_RUN (int r)] else [])) @ rest"
    and "dec_loop bytes chunks_len co px_len (q + r * co)
           (s\<lparr>d_p := length pre +
                length (concat (map chunk_bytes (if 0 < int r then [OP_RUN (int r)] else [])))\<rparr>) =
         Some out"
  shows "dec_loop bytes chunks_len co px_len q s =
           Some (concat (replicate r (px_out co (d_px s))) @ out)"
proof (cases "r = 0")
  case True
  have "s\<lparr>d_p := length pre\<rparr> = s" using assms(2) by (cases s) simp
  with assms(9) True show ?thesis by simp
next
  case False
  then have r: "1 \<le> r" "r \<le> 62" "0 < r" using assms(1) by simp_all
  have b: "bytes = pre @ chunk_bytes (OP_RUN (int r)) @ rest"
    using assms(8) r by simp
  have "dec_loop bytes chunks_len co px_len (q + r * co) (s\<lparr>d_p := length pre + 1\<rparr>) = Some out"
    using assms(9) r by simp
  from dec_loop_run_chunk [OF r(1,2) assms(2,3,4) _ assms(6,7) b this] assms(5) r(3)
  show ?thesis by simp
qed

section \<open>A new pixel: index or difference chunk\<close>

lemma enc_px_new_pixel:
  assumes "px \<noteq> e_px_prev es" "length (e_index es) = 64"
  obtains c where
    "fst (enc_px at_end px es) = (if 0 < e_run es then [OP_RUN (e_run es)] else []) @ [c]"
    "snd (enc_px at_end px es) =
       es\<lparr>e_index := (e_index es)[QOI_COLOR_HASH px mod 64 := px], e_run := 0, e_px_prev := px\<rparr>"
    "\<And>pre2 rest2 s. d_p s = length pre2 \<Longrightarrow> d_px s = e_px_prev es \<Longrightarrow>
        d_index s = e_index es \<Longrightarrow>
        dec_chunk (pre2 @ chunk_bytes c @ rest2) s =
          Some (s\<lparr>d_p := length pre2 + length (chunk_bytes c), d_px := px\<rparr>)"
    "0 < length (chunk_bytes c)"
proof (cases "e_index es ! (QOI_COLOR_HASH px mod 64) = px")
  case True
  let ?h = "QOI_COLOR_HASH px mod 64"
  have h: "?h < 64" by simp
  show ?thesis
  proof (rule that [of "OP_INDEX ?h"])
    show "fst (enc_px at_end px es) =
            (if 0 < e_run es then [OP_RUN (e_run es)] else []) @ [OP_INDEX ?h]"
      by (simp add: enc_px_index [OF assms(1) True])
    show "snd (enc_px at_end px es) =
            es\<lparr>e_index := (e_index es)[?h := px], e_run := 0, e_px_prev := px\<rparr>"
      by (simp add: enc_px_index [OF assms(1) True] list_update_same_val [OF True])
    show "dec_chunk (pre2 @ chunk_bytes (OP_INDEX ?h) @ rest2) s =
            Some (s\<lparr>d_p := length pre2 + length (chunk_bytes (OP_INDEX ?h)), d_px := px\<rparr>)"
      if "d_p s = length pre2" "d_px s = e_px_prev es" "d_index s = e_index es" for pre2 rest2 s
      using dec_chunk_index_op [OF h that(1), of rest2] True that(3) by simp
    show "0 < length (chunk_bytes (OP_INDEX ?h))" by simp
  qed
next
  case False
  let ?h = "QOI_COLOR_HASH px mod 64"
  let ?c = "enc_delta px (e_px_prev es)"
  show ?thesis
  proof (rule that [of ?c])
    show "fst (enc_px at_end px es) = (if 0 < e_run es then [OP_RUN (e_run es)] else []) @ [?c]"
      by (simp add: enc_px_delta [OF assms(1) False])
    show "snd (enc_px at_end px es) =
            es\<lparr>e_index := (e_index es)[?h := px], e_run := 0, e_px_prev := px\<rparr>"
      by (simp add: enc_px_delta [OF assms(1) False])
    show "dec_chunk (pre2 @ chunk_bytes ?c @ rest2) s =
            Some (s\<lparr>d_p := length pre2 + length (chunk_bytes ?c), d_px := px\<rparr>)"
      if "d_p s = length pre2" "d_px s = e_px_prev es" "d_index s = e_index es" for pre2 rest2 s
      using dec_chunk_delta [OF that(1), of px rest2] that(2) by simp
    show "0 < length (chunk_bytes ?c)" by (simp add: enc_delta_def Let_def)
  qed
qed

lemma enc_px_new_pixel_ex:
  assumes "px \<noteq> e_px_prev es" "length (e_index es) = 64"
  shows "\<exists>c. fst (enc_px at_end px es) =
                (if 0 < e_run es then [OP_RUN (e_run es)] else []) @ [c] \<and>
             snd (enc_px at_end px es) =
                es\<lparr>e_index := (e_index es)[QOI_COLOR_HASH px mod 64 := px], e_run := 0,
                    e_px_prev := px\<rparr> \<and>
             (\<forall>pre2 rest2 s. d_p s = length pre2 \<longrightarrow> d_px s = e_px_prev es \<longrightarrow>
                d_index s = e_index es \<longrightarrow>
                dec_chunk (pre2 @ chunk_bytes c @ rest2) s =
                  Some (s\<lparr>d_p := length pre2 + length (chunk_bytes c), d_px := px\<rparr>)) \<and>
             0 < length (chunk_bytes c)"
  using enc_px_new_pixel [OF assms, of at_end] by metis

section \<open>The decoder follows the encoder\<close>

lemma concat_replicate_snoc:
  "concat (replicate r x) @ x @ ys = concat (replicate (Suc r) x) @ ys"
  by (induction r) simp_all

lemma roundtrip_loop:
  assumes ci: "ci = 3 \<or> ci = 4" and co: "co = 3 \<or> co = 4"
  shows
  "length P = px_pos + m * ci \<Longrightarrow>
   e_run es = int r \<Longrightarrow> r \<le> 61 \<Longrightarrow> (m = 0 \<longrightarrow> r = 0) \<Longrightarrow>
   (ci \<noteq> 4 \<longrightarrow> rgba_a (e_px_prev es) = al) \<Longrightarrow>
   length (e_index es) = 64 \<Longrightarrow>
   e_index es ! (QOI_COLOR_HASH (e_px_prev es) mod 64) = e_px_prev es \<Longrightarrow>
   d_p ds = length pre \<Longrightarrow> d_px ds = e_px_prev es \<Longrightarrow> d_index ds = e_index es \<Longrightarrow>
   d_run ds = 0 \<Longrightarrow>
   dec_loop (pre @ concat (map chunk_bytes (enc_loop P ci (int (length P)) px_pos es)) @ rest)
     (int (length pre +
           length (concat (map chunk_bytes (enc_loop P ci (int (length P)) px_pos es)))))
     co (int (q + (r + m) * co)) q ds =
   Some (concat (replicate r (px_out co (e_px_prev es))) @
         concat (map (px_out co) (to_pixels ci al (drop px_pos P))))"
proof (induction m arbitrary: px_pos es r ds pre q)
  case 0
  then have "enc_loop P ci (int (length P)) px_pos es = []" by (simp add: enc_loop_done)
  moreover have "to_pixels ci al (drop px_pos P) = []" using 0 by (simp add: to_pixels_def)
  ultimately show ?case using 0 by (simp add: dec_loop_done)
next
  case (Suc m)
  have ci0: "0 < ci" and co0: "0 < co" using ci co by auto
  define px where "px = read_px P ci px_pos (e_px_prev es)"
  define at_end where "at_end \<longleftrightarrow> int px_pos = int (length P) - int ci"
  define res where "res = enc_px at_end px es"
  define more where "more = enc_loop P ci (int (length P)) (px_pos + ci) (snd res)"
  define PL where "PL = int (q + (r + Suc m) * co)"
  define tail where "tail = concat (map (px_out co) (to_pixels ci al (drop (px_pos + ci) P)))"
  have len': "length P = px_pos + ci + m * ci" using Suc.prems(1) by simp
  have fits: "px_pos + ci \<le> length P" using len' by simp
  have lt: "int px_pos < int (length P)" using fits ci0 by simp
  have at_end: "at_end \<longleftrightarrow> m = 0" using len' ci0 by (auto simp: at_end_def)
  have step: "enc_loop P ci (int (length P)) px_pos es = fst res @ more"
    unfolding res_def more_def px_def at_end_def by (rule enc_loop_step [OF lt ci0])
  have tp: "to_pixels ci al (drop px_pos P) = px # to_pixels ci al (drop (px_pos + ci) P)"
    unfolding px_def by (rule to_pixels_read_px [OF ci fits Suc.prems(5)])
  have al: "ci \<noteq> 4 \<longrightarrow> rgba_a px = al"
    using Suc.prems(5) by (auto simp: px_def read_px_alpha)
  have hpx: "QOI_COLOR_HASH px mod 64 < 64" by simp
  have IH: "dec_loop (pre' @ concat (map chunk_bytes more) @ rest)
              (int (length pre' + length (concat (map chunk_bytes more)))) co
              (int (q' + (r' + m) * co)) q' ds' =
            Some (concat (replicate r' (px_out co px)) @ tail)"
    if "e_run (snd res) = int r'" "r' \<le> 61" "m = 0 \<longrightarrow> r' = 0"
      "length (e_index (snd res)) = 64"
      "e_index (snd res) ! (QOI_COLOR_HASH px mod 64) = px"
      "e_px_prev (snd res) = px"
      "d_p ds' = length pre'" "d_px ds' = px" "d_index ds' = e_index (snd res)" "d_run ds' = 0"
    for pre' q' r' ds'
    unfolding more_def tail_def
    using Suc.IH [OF len', of "snd res" r' ds' pre' q'] that al by simp
  show ?case
  proof (cases "px = e_px_prev es")
    case True
    show ?thesis
    proof (cases "e_run es + 1 = 62 \<or> at_end")
      case False
      have res: "res = ([], es\<lparr>e_run := int (Suc r), e_px_prev := px\<rparr>)"
        unfolding res_def using enc_px_repeat_cont [OF True False] Suc.prems(2) by simp
      have r: "Suc r \<le> 61" "m = 0 \<longrightarrow> Suc r = 0"
        using False Suc.prems(2,3) at_end by auto
      have "dec_loop (pre @ concat (map chunk_bytes more) @ rest)
              (int (length pre + length (concat (map chunk_bytes more)))) co
              (int (q + (Suc r + m) * co)) q ds =
            Some (concat (replicate (Suc r) (px_out co px)) @ tail)"
        using Suc.prems r True by (intro IH) (simp_all add: res)
      then show ?thesis
        by (simp add: step res tp True [symmetric] tail_def concat_replicate_snoc)
    next
      case flush: True
      have res: "res = ([OP_RUN (int (Suc r))], es\<lparr>e_run := 0, e_px_prev := px\<rparr>)"
        unfolding res_def using enc_px_repeat_flush [OF True flush] Suc.prems(2) by simp
      let ?rb = "chunk_bytes (OP_RUN (int (Suc r)))"
      let ?bytes = "pre @ concat (map chunk_bytes (enc_loop P ci (int (length P)) px_pos es)) @ rest"
      let ?clen = "int (length pre +
           length (concat (map chunk_bytes (enc_loop P ci (int (length P)) px_pos es))))"
      have bytes: "?bytes = pre @ ?rb @ (concat (map chunk_bytes more) @ rest)"
        by (simp add: step res)
      have clen: "?clen = int (length (pre @ ?rb) + length (concat (map chunk_bytes more)))"
        by (simp add: step res)
      have "dec_loop ((pre @ ?rb) @ concat (map chunk_bytes more) @ rest)
              (int (length (pre @ ?rb) + length (concat (map chunk_bytes more)))) co
              (int (q + Suc r * co + (0 + m) * co)) (q + Suc r * co) (ds\<lparr>d_p := length pre + 1\<rparr>) =
            Some (concat (replicate 0 (px_out co px)) @ tail)"
        using Suc.prems True by (intro IH) (simp_all add: res)
      then have rest: "dec_loop ?bytes ?clen co PL (q + Suc r * co) (ds\<lparr>d_p := length pre + 1\<rparr>) =
            Some tail"
        unfolding bytes clen PL_def by (simp add: algebra_simps)
      have "dec_loop ?bytes ?clen co PL q ds =
              Some (concat (replicate (Suc r) (px_out co (d_px ds))) @ tail)"
      proof (rule dec_loop_run_chunk [OF _ _ Suc.prems(8,11) _ _ co0 _ bytes rest])
        show "1 \<le> Suc r" by simp
        show "Suc r \<le> 62" using Suc.prems(3) by simp
        show "d_index ds ! (QOI_COLOR_HASH (d_px ds) mod 64) = d_px ds"
          using Suc.prems(7,9,10) by simp
        show "int (length pre) < ?clen" by (simp add: step res)
        show "int (q + Suc r * co) \<le> PL" by (simp add: PL_def algebra_simps)
      qed
      then show ?thesis
        unfolding PL_def
        by (simp add: Suc.prems(9) tp True [symmetric] tail_def concat_replicate_snoc)
    qed
  next
    case False
    obtain c where c:
      "fst res = (if 0 < e_run es then [OP_RUN (e_run es)] else []) @ [c]"
      "snd res =
         es\<lparr>e_index := (e_index es)[QOI_COLOR_HASH px mod 64 := px], e_run := 0, e_px_prev := px\<rparr>"
      "\<And>pre2 rest2 s. d_p s = length pre2 \<Longrightarrow> d_px s = e_px_prev es \<Longrightarrow>
          d_index s = e_index es \<Longrightarrow>
          dec_chunk (pre2 @ chunk_bytes c @ rest2) s =
            Some (s\<lparr>d_p := length pre2 + length (chunk_bytes c), d_px := px\<rparr>)"
      "0 < length (chunk_bytes c)"
      using enc_px_new_pixel_ex [OF False Suc.prems(6), of at_end] unfolding res_def by blast
    let ?fl = "concat (map chunk_bytes (if 0 < int r then [OP_RUN (int r)] else []))"
    let ?cb = "chunk_bytes c"
    let ?mb = "concat (map chunk_bytes more)"
    let ?bytes = "pre @ concat (map chunk_bytes (enc_loop P ci (int (length P)) px_pos es)) @ rest"
    let ?clen = "int (length pre +
           length (concat (map chunk_bytes (enc_loop P ci (int (length P)) px_pos es))))"
    have bytes: "?bytes = pre @ ?fl @ (?cb @ ?mb @ rest)"
      by (simp add: step c(1) Suc.prems(2))
    have bytes2: "?bytes = (pre @ ?fl) @ ?cb @ (?mb @ rest)"
      by (simp add: step c(1) Suc.prems(2))
    have bytes3: "?bytes = (pre @ ?fl @ ?cb) @ ?mb @ rest"
      by (simp add: step c(1) Suc.prems(2))
    have clen: "?clen = int (length (pre @ ?fl @ ?cb) + length ?mb)"
      by (simp add: step c(1) Suc.prems(2))
    let ?s2 = "ds\<lparr>d_p := length pre + length ?fl\<rparr>"
    let ?s3 = "?s2\<lparr>d_p := length (pre @ ?fl) + length ?cb, d_px := px\<rparr>"
    let ?s4 = "?s3\<lparr>d_index := (d_index ?s3)[QOI_COLOR_HASH (d_px ?s3) mod 64 := d_px ?s3]\<rparr>"
    have "dec_loop ((pre @ ?fl @ ?cb) @ ?mb @ rest) (int (length (pre @ ?fl @ ?cb) + length ?mb)) co
            (int (q + r * co + co + (0 + m) * co)) (q + r * co + co) ?s4 =
          Some (concat (replicate 0 (px_out co px)) @ tail)"
      using Suc.prems hpx by (intro IH) (simp_all add: c(2))
    then have l4: "dec_loop ?bytes ?clen co PL (q + r * co + co) ?s4 = Some tail"
      unfolding bytes3 [symmetric] clen [symmetric] PL_def by (simp add: algebra_simps)
    have dc: "dec_chunk ?bytes ?s2 = Some ?s3"
      unfolding bytes2 using Suc.prems(9,10) by (intro c(3)) simp_all
    have l2: "dec_loop ?bytes ?clen co PL (q + r * co) ?s2 = Some (px_out co (d_px ?s3) @ tail)"
    proof (rule dec_loop_pixel_chunk [OF dc _ _ co0 _ l4])
      show "d_run ?s2 = 0" using Suc.prems(11) by simp
      have "length (pre @ ?fl) < length (pre @ ?fl @ ?cb) + length ?mb" using c(4) by simp
      then have "int (length (pre @ ?fl)) < ?clen" unfolding clen by (simp only: of_nat_less_iff)
      then show "int (d_p ?s2) < ?clen" by simp
      have "q + r * co < q + (r + Suc m) * co" using co0 by (simp add: algebra_simps)
      then show "int (q + r * co) < PL" unfolding PL_def by (simp only: of_nat_less_iff)
    qed
    have "dec_loop ?bytes ?clen co PL q ds =
            Some (concat (replicate r (px_out co (d_px ds))) @ px_out co (d_px ?s3) @ tail)"
    proof (rule dec_loop_flush [OF Suc.prems(3,8,11) _ _ co0 _ bytes l2])
      show "d_index ds ! (QOI_COLOR_HASH (d_px ds) mod 64) = d_px ds"
        using Suc.prems(7,9,10) by simp
      show "0 < r \<longrightarrow> int (length pre) < ?clen" by (simp add: step c(1) Suc.prems(2))
      show "int (q + r * co) \<le> PL" by (simp add: PL_def algebra_simps)
    qed
    then show ?thesis
      unfolding PL_def by (simp add: Suc.prems(9) tp tail_def)
  qed
qed

section \<open>Header and whole call\<close>

lemma qoi_read_32_write:
  "qoi_read_32 (pre @ qoi_write_32 v @ rest) (length pre) = Some (v, length pre + 4)"
proof -
  define b0 :: byte where "b0 = ucast (drop_bit 24 (0xff000000 AND v))"
  define b1 :: byte where "b1 = ucast (drop_bit 16 (0x00ff0000 AND v))"
  define b2 :: byte where "b2 = ucast (drop_bit 8 (0x0000ff00 AND v))"
  define b3 :: byte where "b3 = ucast (0x000000ff AND v)"
  have w: "qoi_write_32 v = [b0, b1, b2, b3]"
    unfolding qoi_write_32_def b0_def b1_def b2_def b3_def by (rule refl)
  have v: "push_bit 24 (ucast b0) OR push_bit 16 (ucast b1) OR push_bit 8 (ucast b2) OR ucast b3 = v"
    unfolding b0_def b1_def b2_def b3_def by (rule rw32)
  have r: "rd (pre @ [b0, b1, b2, b3] @ rest) (length pre) = Some b0"
    "rd (pre @ [b0, b1, b2, b3] @ rest) (Suc (length pre)) = Some b1"
    "rd (pre @ [b0, b1, b2, b3] @ rest) (Suc (Suc (length pre))) = Some b2"
    "rd (pre @ [b0, b1, b2, b3] @ rest) (length pre + 3) = Some b3"
    using rd_chunk [of 0 "[b0, b1, b2, b3]" pre rest] rd_chunk [of 1 "[b0, b1, b2, b3]" pre rest]
      rd_chunk [of 2 "[b0, b1, b2, b3]" pre rest] rd_chunk [of 3 "[b0, b1, b2, b3]" pre rest]
    by simp_all
  show ?thesis
    unfolding qoi_read_32_def w using r v by simp
qed

lemma dec_header_enc_header:
  "dec_header (enc_header desc @ rest) = Some (QOI_MAGIC, desc, 14)"
proof -
  let ?m = "qoi_write_32 QOI_MAGIC" and ?w = "qoi_write_32 (width desc)"
    and ?h = "qoi_write_32 (height desc)"
  let ?bytes = "enc_header desc @ rest"
  have b1: "?bytes = [] @ ?m @ (?w @ ?h @ [channels desc, colorspace desc] @ rest)"
    and b2: "?bytes = ?m @ ?w @ (?h @ [channels desc, colorspace desc] @ rest)"
    and b3: "?bytes = (?m @ ?w) @ ?h @ ([channels desc, colorspace desc] @ rest)"
    and b4: "?bytes = (?m @ ?w @ ?h) @ [channels desc, colorspace desc] @ rest"
    by (simp_all add: enc_header_def)
  have m: "qoi_read_32 ?bytes 0 = Some (QOI_MAGIC, 4)"
    unfolding b1 using qoi_read_32_write [of "[]" QOI_MAGIC] by simp
  have w: "qoi_read_32 ?bytes 4 = Some (width desc, 8)"
    unfolding b2 using qoi_read_32_write [of ?m "width desc"] by (simp add: length_qoi_write_32)
  have h: "qoi_read_32 ?bytes 8 = Some (height desc, 12)"
    unfolding b3 using qoi_read_32_write [of "?m @ ?w" "height desc"]
    by (simp add: length_qoi_write_32)
  have c: "rd ?bytes 12 = Some (channels desc)" "rd ?bytes 13 = Some (colorspace desc)"
    unfolding b4
    using rd_chunk [of 0 "[channels desc, colorspace desc]" "?m @ ?w @ ?h" rest]
      rd_chunk [of 1 "[channels desc, colorspace desc]" "?m @ ?w @ ?h" rest]
    by (simp_all add: length_qoi_write_32)
  show ?thesis
    unfolding dec_header_def by (simp add: m w h c)
qed

lemma dec_px_len_exact:
  assumes "unat (width desc) * unat (height desc) * co < 2 ^ 31"
  shows "dec_px_len desc co = int (unat (width desc) * unat (height desc) * co)"
  unfolding dec_px_len_def word_prod_of_nat' by (rule sint_of_nat_small [OF assms])

lemma channels_3_or_4:
  assumes "3 \<le> (c :: byte)" "c \<le> 4"
  shows "unat c = 3 \<or> unat c = 4"
proof -
  have "3 \<le> unat c" "unat c \<le> 4"
    using assms by (simp_all add: word_le_nat_alt)
  then show ?thesis by linarith
qed

lemma split_count:
  assumes "k \<le> (m :: nat)"
  shows "k * c + (m - k) * c = m * c"
proof -
  have "(k + (m - k)) * c = m * c" using assms by simp
  then show ?thesis by (simp only: add_mult_distrib)
qed

lemma split_last_less:
  assumes "k \<le> (m :: nat)" "m - k \<noteq> 0" "0 < c"
  shows "int (k * c + (m - k - 1) * c) < int (m * c)"
proof -
  have "k + (m - k - 1) < m" using assms by simp
  then have "(k + (m - k - 1)) * c < m * c" using assms(3) by simp
  then have "k * c + (m - k - 1) * c < m * c" by (simp only: add_mult_distrib)
  then show ?thesis by (simp only: of_nat_less_iff)
qed

lemma split_prev_less:
  assumes "k \<le> (m :: nat)" "k \<noteq> 0" "0 < c"
  shows "int (0 + (k - 1) * c) < int (m * c)"
proof -
  have "k - 1 < m" using assms by simp
  then have "(k - 1) * c < m * c" using assms(3) by simp
  then show ?thesis by (simp only: of_nat_less_iff add_0)
qed

lemma roundtrip_general:
  assumes valid: "width desc \<noteq> 0" "height desc \<noteq> 0" "channels desc = 3 \<or> channels desc = 4"
      "colorspace desc \<le> 2"
    and co: "co = 3 \<or> co = 4"
    and len: "length P = unat (width desc) * unat (height desc) * unat (channels desc)"
    and small: "unat (width desc) * unat (height desc) * unat (channels desc) < 2 ^ 31"
      "unat (width desc) * unat (height desc) * co < 2 ^ 31"
    and fits: "unat (width desc) * unat (height desc) * (unat (channels desc) + 1) + 14 + 8 < 2 ^ 31"
  shows "\<exists>enc. qoi_encode P desc = Inr enc \<and>
           qoi_decode enc co =
             Inr (concat (map (px_out co) (to_pixels (unat (channels desc)) 0 P)), desc)"
proof -
  let ?m = "unat (width desc) * unat (height desc)"
  let ?ci = "unat (channels desc)"
  let ?chunks = "concat (map chunk_bytes (enc_chunks P desc))"
  let ?enc = "enc_header desc @ ?chunks @ replicate QOI_PADDING 0"
  have ci: "?ci = 3 \<or> ?ci = 4" using valid(3) by auto
  have v: "\<not> (width desc = 0 \<or> height desc = 0 \<or> channels desc < 3 \<or> channels desc > 4 \<or>
              colorspace desc > 2)"
    using valid by (auto simp: not_less)
  have v': "3 \<le> channels desc" "channels desc \<le> 4"
    using valid(3) by auto
  have enc: "qoi_encode P desc = Inr ?enc"
    using qoi_encode_fits [OF valid(1,2) v' valid(4) fits, of P] by (simp add: enc_bytes_def)
  have epl: "enc_px_len desc = int (length P)"
    using enc_px_len_exact [OF small(1)] len by simp
  have dpl: "dec_px_len desc co = int (0 + (0 + ?m) * co)"
    using dec_px_len_exact [OF small(2)] by simp
  have chunks: "enc_chunks P desc = enc_loop P ?ci (int (length P)) 0 enc_init"
    by (simp add: enc_chunks_def epl)
  have loop: "dec_loop (enc_header desc @
                  concat (map chunk_bytes (enc_loop P ?ci (int (length P)) 0 enc_init)) @
                  replicate QOI_PADDING 0)
            (int (length (enc_header desc) +
                  length (concat (map chunk_bytes (enc_loop P ?ci (int (length P)) 0 enc_init)))))
            co (int (0 + (0 + ?m) * co)) 0 (dec_init 14) =
          Some (concat (replicate 0 (px_out co (e_px_prev enc_init))) @
                concat (map (px_out co) (to_pixels ?ci 0 (drop 0 P))))"
    using len
    by (intro roundtrip_loop [OF ci co])
      (simp_all add: enc_init_def dec_init_def length_enc_header QOI_COLOR_HASH_def)
  have clen: "int (length ?enc) - int QOI_PADDING =
              int (length (enc_header desc) +
                  length (concat (map chunk_bytes (enc_loop P ?ci (int (length P)) 0 enc_init))))"
    by (simp add: chunks)
  have loop': "dec_loop ?enc (int (length ?enc) - int QOI_PADDING) co (dec_px_len desc co) 0
                 (dec_init 14) =
               Some (concat (map (px_out co) (to_pixels ?ci 0 P)))"
    unfolding clen dpl chunks using loop by simp
  have l22: "\<not> length ?enc < QOI_HEADER_SIZE + QOI_PADDING"
    by (simp add: length_enc_header QOI_HEADER_SIZE_def QOI_PADDING_def)
  have c: "\<not> (co \<noteq> 0 \<and> co \<noteq> 3 \<and> co \<noteq> 4)" "(if co = 0 then ?ci else co) = co"
    using co by auto
  have c0: "0 < co" using co by auto
  have dpl': "dec_px_len desc co = int (?m * co)"
    by (rule dec_px_len_exact [OF small(2)])
  have le': "int (?m * co) \<le> int (0 + ?m * co)" by simp
  have prev: "?m = 0 \<or> int (0 + (?m - 1) * co) < int (?m * co)"
    using split_prev_less [OF order_refl _ c0, of ?m] by blast
  have L: "length (concat (map (px_out co) (to_pixels ?ci 0 P))) = ?m * co"
    by (rule dec_loop_length [OF co le' prev loop' [unfolded dpl']])
  have fit: "\<not> dec_px_len desc co < int (length (concat (map (px_out co) (to_pixels ?ci 0 P))))"
    "\<not> dec_px_len desc co < 0"
    unfolding dpl' L by (simp_all only: not_less order_refl of_nat_0_le_iff)
  have "qoi_decode ?enc co =
          Inr (concat (map (px_out co) (to_pixels ?ci 0 P)), desc)"
    unfolding qoi_decode_def dec_header_enc_header
    using v by (simp only: c l22 if_False option.case prod.case Let_def loop' fit) simp
  with enc show ?thesis by blast
qed

section \<open>The call past the end of the chunks\<close>

text \<open>
  C8 fails as stated where the pixel count overflows 32 bits: for the header of a
  65536 x 16384 RGB image, which passes every check, followed by the padding, the cursor
  is at \<open>size - 8\<close> before the first pixel, \<^verbatim>\<open>px_len\<close> is \<open>-1073741824\<close>, the
  allocation fails and the call returns \<^verbatim>\<open>NULL\<close>.
\<close>

theorem decode_fails_on_overflow:
  "22 \<le> length overflow_example \<and>
   dec_header overflow_example =
     Some (QOI_MAGIC, \<lparr>width = 65536, height = 16384, channels = 3, colorspace = 0\<rparr>, 14) \<and>
   dec_iters 0 overflow_example (int (length overflow_example) - 8) (dec_init 14) =
     Some (dec_init 14) \<and>
   int (length overflow_example) - 8 \<le> int (d_p (dec_init 14)) \<and>
   dec_px_len \<lparr>width = 65536, height = 16384, channels = 3, colorspace = 0\<rparr> 3 = - 1073741824 \<and>
   qoi_decode overflow_example 0 = Inl AllocationFailed \<and>
   qoi_decode overflow_example 3 = Inl AllocationFailed"
  by code_simp

text \<open>
  C8, as amended: take an input of at least 22 bytes whose header passes the checks and
  whose pixel count \<open>width * height * channels\<close> (with the output channels) is below
  \<open>2^31\<close>. If after \<open>k\<close> iterations of the loop the cursor \<open>p\<close> has reached
  \<open>size - 8\<close>, the call does not fail: it returns the full buffer of
  \<open>width * height * channels\<close> bytes and the descriptor of the header, and every pixel
  from position \<open>k\<close> on is the pixel \<open>px\<close> of that moment.
\<close>

theorem decode_past_chunks_end:
  assumes "chans0 = 0 \<or> chans0 = 3 \<or> chans0 = 4" and "22 \<le> length bytes"
    and "dec_header bytes = Some (QOI_MAGIC, desc, p)"
    and "width desc \<noteq> 0" "height desc \<noteq> 0" "3 \<le> channels desc" "channels desc \<le> 4"
    and "colorspace desc \<le> 2"
    and "chans = (if chans0 = 0 then unat (channels desc) else chans0)"
    and "unat (width desc) * unat (height desc) * chans < 2 ^ 31"
    and "k \<le> unat (width desc) * unat (height desc)"
    and "dec_iters k bytes (int (length bytes) - 8) (dec_init p) = Some s"
    and "int (length bytes) - 8 \<le> int (d_p s)"
  shows "\<exists>pixels. qoi_decode bytes chans0 = Inr (pixels, desc) \<and>
           length pixels = unat (width desc) * unat (height desc) * chans \<and>
           drop (k * chans) pixels =
             concat (replicate (unat (width desc) * unat (height desc) - k)
                       (px_out chans (d_px s)))"
proof -
  let ?m = "unat (width desc) * unat (height desc)"
  let ?cl = "int (length bytes) - 8"
  let ?rest = "concat (replicate (?m - k) (px_out chans (d_px s)))"
  have co: "chans = 3 \<or> chans = 4"
    using assms(1,9) channels_3_or_4 [OF assms(6,7)] by auto
  then have c0: "0 < chans" by auto
  have dpl: "dec_px_len desc chans = int (?m * chans)"
    by (rule dec_px_len_exact [OF assms(10)])
  have le: "int (?m * chans) \<le> int (k * chans + (?m - k) * chans)"
    by (simp only: split_count [OF assms(11)] order_refl)
  have last: "?m - k = 0 \<or> int (k * chans + (?m - k - 1) * chans) < int (?m * chans)"
    using split_last_less [OF assms(11) _ c0] by blast
  have rest: "dec_loop bytes ?cl chans (int (?m * chans)) (0 + k * chans) s = Some ?rest"
    using dec_loop_past_end [OF assms(13) c0, of "int (?m * chans)" "k * chans" "?m - k" bytes]
      le last by simp
  have prev: "k = 0 \<or> int (0 + (k - 1) * chans) < int (?m * chans)"
    using split_prev_less [OF assms(11) _ c0] by blast
  from dec_loop_split [OF co assms(12) prev rest] obtain pre where
    pre: "length pre = k * chans"
      "dec_loop bytes ?cl chans (int (?m * chans)) 0 (dec_init p) = Some (pre @ ?rest)"
    by blast
  have lr: "length ?rest = (?m - k) * chans"
    by (simp add: length_concat sum_list_replicate length_px_out [OF co])
  have len: "length (pre @ ?rest) = ?m * chans"
    using pre(1) lr split_count [OF assms(11), of chans] by simp
  have dr: "drop (k * chans) (pre @ ?rest) = ?rest"
    using pre(1) by simp
  have v: "\<not> (width desc = 0 \<or> height desc = 0 \<or> channels desc < 3 \<or> channels desc > 4 \<or>
              colorspace desc > 2 \<or> QOI_MAGIC \<noteq> QOI_MAGIC)"
    using assms(4-8) by (auto simp: not_less)
  have c: "\<not> (chans0 \<noteq> 0 \<and> chans0 \<noteq> 3 \<and> chans0 \<noteq> 4)"
    using assms(1) by auto
  have l22: "\<not> length bytes < QOI_HEADER_SIZE + QOI_PADDING"
    using assms(2) by (simp add: QOI_HEADER_SIZE_def QOI_PADDING_def)
  have pad: "int (length bytes) - int QOI_PADDING = int (length bytes) - 8"
    by (simp add: QOI_PADDING_def)
  have loop: "dec_loop bytes (int (length bytes) - int QOI_PADDING) chans
                (dec_px_len desc chans) 0 (dec_init p) = Some (pre @ ?rest)"
    unfolding pad dpl by (rule pre(2))
  have fit: "\<not> dec_px_len desc chans < 0"
    "\<not> dec_px_len desc chans < int (length (pre @ ?rest))"
    unfolding dpl len by (simp_all only: not_less order_refl of_nat_0_le_iff)
  have "qoi_decode bytes chans0 = Inr (pre @ ?rest, desc)"
    unfolding qoi_decode_def assms(3)
    using v
    by (simp only: c l22 if_False option.case prod.case Let_def assms(9) [symmetric] loop fit)
  with len dr show ?thesis by blast
qed

theorem decode_past_chunks_end_witness:
  "dec_header truncated_example = Some (QOI_MAGIC, d_1x3, 14) \<and>
   dec_iters 1 truncated_example (int (length truncated_example) - 8) (dec_init 14) =
     Some \<lparr>d_p = 19, d_px = \<lparr>rgba_r = 10, rgba_g = 20, rgba_b = 30, rgba_a = 40\<rparr>,
           d_index = (replicate 64 \<lparr>rgba_r = 0, rgba_g = 0, rgba_b = 0, rgba_a = 0\<rparr>)
             [12 := \<lparr>rgba_r = 10, rgba_g = 20, rgba_b = 30, rgba_a = 40\<rparr>],
           d_run = 0\<rparr> \<and>
   int (length truncated_example) - 8 = 19 \<and>
   qoi_decode truncated_example 0 =
     Inr ([10, 20, 30, 40, 10, 20, 30, 40, 10, 20, 30, 40], d_1x3) \<and>
   drop (1 * 4) [10, 20, 30, 40, 10, 20, 30, 40, 10, 20, 30, 40 :: byte] =
     concat (replicate (3 - 1) [10, 20, 30, 40])"
proof -
  let ?s = "\<lparr>d_p = 19, d_px = \<lparr>rgba_r = 10, rgba_g = 20, rgba_b = 30, rgba_a = 40\<rparr>,
           d_index = (replicate 64 \<lparr>rgba_r = 0, rgba_g = 0, rgba_b = 0, rgba_a = 0\<rparr>)
             [12 := \<lparr>rgba_r = 10, rgba_g = 20, rgba_b = 30, rgba_a = 40\<rparr>],
           d_run = 0\<rparr>"
  have h: "dec_header truncated_example = Some (QOI_MAGIC, d_1x3, 14)"
    by code_simp
  have l: "22 \<le> length truncated_example" "int (length truncated_example) - 8 = 19"
    by (simp_all add: truncated_example_def)
  have i: "dec_iters 1 truncated_example (int (length truncated_example) - 8) (dec_init 14) =
             Some ?s"
    by code_simp
  have d: "qoi_decode truncated_example 0 =
     Inr ([10, 20, 30, 40, 10, 20, 30, 40, 10, 20, 30, 40], d_1x3)"
    by code_simp
  have m: "unat (width d_1x3) * unat (height d_1x3) = 3" "unat (channels d_1x3) = 4"
    by (simp_all add: d_1x3_def)
  have "\<exists>pixels. qoi_decode truncated_example 0 = Inr (pixels, d_1x3) \<and>
           length pixels = unat (width d_1x3) * unat (height d_1x3) * 4 \<and>
           drop (1 * 4) pixels =
             concat (replicate (unat (width d_1x3) * unat (height d_1x3) - 1)
                       (px_out 4 (d_px ?s)))"
    using l(2)
    by (intro decode_past_chunks_end [OF _ l(1) h _ _ _ _ _ _ _ _ i])
      (simp_all add: d_1x3_def)
  then have "drop (1 * 4) [10, 20, 30, 40, 10, 20, 30, 40, 10, 20, 30, 40 :: byte] =
     concat (replicate (3 - 1) [10, 20, 30, 40])"
    unfolding d m by (simp add: px_out_def)
  with h i l(2) d show ?thesis by blast
qed

section \<open>Pixel lists and byte buffers\<close>

lemma list_4_more:
  assumes "length P = Suc n * 4"
  obtains c0 c1 c2 c3 P' where "P = c0 # c1 # c2 # c3 # P'" "length P' = n * 4"
proof -
  have "length P = Suc (Suc (Suc (Suc (n * 4))))" using assms by simp
  then show ?thesis using that by (auto simp: length_Suc_conv)
qed

lemma list_3_more:
  assumes "length P = Suc n * 3"
  obtains c0 c1 c2 P' where "P = c0 # c1 # c2 # P'" "length P' = n * 3"
proof -
  have "length P = Suc (Suc (Suc (n * 3)))" using assms by simp
  then show ?thesis using that by (auto simp: length_Suc_conv)
qed

lemma rgba_pixels_bytes:
  "length P = n * 4 \<Longrightarrow> concat (map (px_out 4) (rgba_pixels P)) = P"
proof (induction n arbitrary: P)
  case 0
  then show ?case by simp
next
  case (Suc n)
  from Suc.prems obtain c0 c1 c2 c3 P' where P: "P = c0 # c1 # c2 # c3 # P'" "length P' = n * 4"
    by (rule list_4_more)
  from Suc.IH [OF P(2)] show ?case by (simp add: P(1) px_out_def)
qed

lemma rgb_pixels_bytes:
  "length P = n * 3 \<Longrightarrow> concat (map (px_out 3) (rgb_pixels al P)) = P"
proof (induction n arbitrary: P)
  case 0
  then show ?case by simp
next
  case (Suc n)
  from Suc.prems obtain c0 c1 c2 P' where P: "P = c0 # c1 # c2 # P'" "length P' = n * 3"
    by (rule list_3_more)
  from Suc.IH [OF P(2)] show ?case by (simp add: P(1) px_out_def)
qed

lemma idx4: "4 * Suc j + k = Suc (Suc (Suc (Suc (4 * j + k))))"
  by simp

lemma idx3: "3 * Suc j + k = Suc (Suc (Suc (3 * j + k)))"
  by simp

lemma rgb_pixels_widened:
  "length P = n * 3 \<Longrightarrow>
   length (concat (map (px_out 4) (rgb_pixels al P))) = n * 4 \<and>
   (\<forall>i<n. concat (map (px_out 4) (rgb_pixels al P)) ! (4 * i + 0) = P ! (3 * i + 0) \<and>
          concat (map (px_out 4) (rgb_pixels al P)) ! (4 * i + 1) = P ! (3 * i + 1) \<and>
          concat (map (px_out 4) (rgb_pixels al P)) ! (4 * i + 2) = P ! (3 * i + 2) \<and>
          concat (map (px_out 4) (rgb_pixels al P)) ! (4 * i + 3) = al)"
proof (induction n arbitrary: P)
  case 0
  then show ?case by simp
next
  case (Suc n)
  from Suc.prems obtain c0 c1 c2 P' where P: "P = c0 # c1 # c2 # P'" "length P' = n * 3"
    by (rule list_3_more)
  note IH = Suc.IH [OF P(2)]
  let ?out' = "concat (map (px_out 4) (rgb_pixels al P'))"
  have out: "concat (map (px_out 4) (rgb_pixels al P)) = c0 # c1 # c2 # al # ?out'"
    by (simp add: P(1) px_out_def)
  have main: "concat (map (px_out 4) (rgb_pixels al P)) ! (4 * i + 0) = P ! (3 * i + 0) \<and>
          concat (map (px_out 4) (rgb_pixels al P)) ! (4 * i + 1) = P ! (3 * i + 1) \<and>
          concat (map (px_out 4) (rgb_pixels al P)) ! (4 * i + 2) = P ! (3 * i + 2) \<and>
          concat (map (px_out 4) (rgb_pixels al P)) ! (4 * i + 3) = al" if "i < Suc n" for i
    unfolding out
    unfolding P(1)
  proof (cases i)
    case 0
    then show "(c0 # c1 # c2 # al # ?out') ! (4 * i + 0) = (c0 # c1 # c2 # P') ! (3 * i + 0) \<and>
        (c0 # c1 # c2 # al # ?out') ! (4 * i + 1) = (c0 # c1 # c2 # P') ! (3 * i + 1) \<and>
        (c0 # c1 # c2 # al # ?out') ! (4 * i + 2) = (c0 # c1 # c2 # P') ! (3 * i + 2) \<and>
        (c0 # c1 # c2 # al # ?out') ! (4 * i + 3) = al"
      by (simp add: numeral_2_eq_2 numeral_3_eq_3)
  next
    case (Suc j)
    then have "j < n" using that by simp
    with IH show "(c0 # c1 # c2 # al # ?out') ! (4 * i + 0) = (c0 # c1 # c2 # P') ! (3 * i + 0) \<and>
        (c0 # c1 # c2 # al # ?out') ! (4 * i + 1) = (c0 # c1 # c2 # P') ! (3 * i + 1) \<and>
        (c0 # c1 # c2 # al # ?out') ! (4 * i + 2) = (c0 # c1 # c2 # P') ! (3 * i + 2) \<and>
        (c0 # c1 # c2 # al # ?out') ! (4 * i + 3) = al"
      unfolding Suc idx4 idx3 nth_Cons_Suc by blast
  qed
  have "length (concat (map (px_out 4) (rgb_pixels al P))) = Suc n * 4"
    unfolding out using IH by simp
  with main show ?case by blast
qed

section \<open>Round trips\<close>

lemma fits_4_of_5: "m * 5 + 14 + 8 < 2 ^ 31 \<Longrightarrow> m * 4 < (2 :: nat) ^ 31"
  by simp

lemma fits_3_of_4: "m * 4 + 14 + 8 < 2 ^ 31 \<Longrightarrow> m * 3 < (2 :: nat) ^ 31"
  by simp

lemma fits_4_of_4: "m * 4 + 14 + 8 < 2 ^ 31 \<Longrightarrow> m * 4 < (2 :: nat) ^ 31"
  by simp

text \<open>
  C1, as amended: for a 4-channel descriptor (width, height not 0, colorspace at most 2,
  which the encoder accepts) whose worst-case encoded size \<open>width * height * 5 + 14 + 8\<close>
  is below \<open>2^31\<close>, and a pixel buffer of \<open>width * height * 4\<close> bytes, decoding the
  encoder's output with 4 output channels gives back the buffer and the descriptor.
\<close>

theorem roundtrip_rgba:
  assumes "channels desc = 4" "width desc \<noteq> 0" "height desc \<noteq> 0" "colorspace desc \<le> 2"
    and "length P = unat (width desc) * unat (height desc) * 4"
    and "unat (width desc) * unat (height desc) * 5 + 14 + 8 < 2 ^ 31"
  shows "\<exists>enc. qoi_encode P desc = Inr enc \<and> qoi_decode enc 4 = Inr (P, desc)"
proof -
  have c: "unat (channels desc) = 4" using assms(1) by simp
  have "\<exists>enc. qoi_encode P desc = Inr enc \<and>
           qoi_decode enc 4 =
             Inr (concat (map (px_out 4) (to_pixels (unat (channels desc)) 0 P)), desc)"
    using assms(1-6) fits_4_of_5 [OF assms(6)] by (intro roundtrip_general) (simp_all add: c)
  moreover have "concat (map (px_out 4) (to_pixels (unat (channels desc)) 0 P)) = P"
    unfolding c to_pixels_def using rgba_pixels_bytes [OF assms(5)] by simp
  ultimately show ?thesis by simp
qed

theorem roundtrip_rgba_witness:
  "qoi_encode [10, 20, 30, 255, 11, 19, 31, 255, 11, 19, 31, 255] d_1x3 =
     Inr [0x71, 0x6f, 0x69, 0x66, 0, 0, 0, 1, 0, 0, 0, 3, 4, 0,
          0xff, 10, 20, 30, 255, 0x77, 0xc0, 0, 0, 0, 0, 0, 0, 0, 0] \<and>
   qoi_decode [0x71, 0x6f, 0x69, 0x66, 0, 0, 0, 1, 0, 0, 0, 3, 4, 0,
          0xff, 10, 20, 30, 255, 0x77, 0xc0, 0, 0, 0, 0, 0, 0, 0, 0] 4 =
     Inr ([10, 20, 30, 255, 11, 19, 31, 255, 11, 19, 31, 255], d_1x3)"
proof -
  let ?P = "[10, 20, 30, 255, 11, 19, 31, 255, 11, 19, 31, 255] :: byte list"
  have e: "qoi_encode ?P d_1x3 =
     Inr [0x71, 0x6f, 0x69, 0x66, 0, 0, 0, 1, 0, 0, 0, 3, 4, 0,
          0xff, 10, 20, 30, 255, 0x77, 0xc0, 0, 0, 0, 0, 0, 0, 0, 0]"
    by code_simp
  have "\<exists>enc. qoi_encode ?P d_1x3 = Inr enc \<and> qoi_decode enc 4 = Inr (?P, d_1x3)"
    by (rule roundtrip_rgba) (simp_all add: d_1x3_def)
  with e show ?thesis by simp
qed

text \<open>
  C4, as amended: the same for a 3-channel descriptor whose worst-case encoded size
  \<open>width * height * 4 + 14 + 8\<close> is below \<open>2^31\<close>, a buffer of \<open>width * height * 3\<close>
  bytes and 3 output channels.
\<close>

theorem roundtrip_rgb:
  assumes "channels desc = 3" "width desc \<noteq> 0" "height desc \<noteq> 0" "colorspace desc \<le> 2"
    and "length P = unat (width desc) * unat (height desc) * 3"
    and "unat (width desc) * unat (height desc) * 4 + 14 + 8 < 2 ^ 31"
  shows "\<exists>enc. qoi_encode P desc = Inr enc \<and> qoi_decode enc 3 = Inr (P, desc)"
proof -
  have c: "unat (channels desc) = 3" using assms(1) by simp
  have "\<exists>enc. qoi_encode P desc = Inr enc \<and>
           qoi_decode enc 3 =
             Inr (concat (map (px_out 3) (to_pixels (unat (channels desc)) 0 P)), desc)"
    using assms(1-6) fits_3_of_4 [OF assms(6)] by (intro roundtrip_general) (simp_all add: c)
  moreover have "concat (map (px_out 3) (to_pixels (unat (channels desc)) 0 P)) = P"
    unfolding c to_pixels_def using rgb_pixels_bytes [OF assms(5)] by simp
  ultimately show ?thesis by simp
qed

theorem roundtrip_rgb_witness:
  "qoi_encode [10, 20, 30, 10, 20, 30, 200, 100, 0] d_1x3_rgb =
     Inr [0x71, 0x6f, 0x69, 0x66, 0, 0, 0, 1, 0, 0, 0, 3, 3, 1,
          0xfe, 10, 20, 30, 0xc0, 0xfe, 200, 100, 0, 0, 0, 0, 0, 0, 0, 0, 0] \<and>
   qoi_decode [0x71, 0x6f, 0x69, 0x66, 0, 0, 0, 1, 0, 0, 0, 3, 3, 1,
          0xfe, 10, 20, 30, 0xc0, 0xfe, 200, 100, 0, 0, 0, 0, 0, 0, 0, 0, 0] 3 =
     Inr ([10, 20, 30, 10, 20, 30, 200, 100, 0], d_1x3_rgb)"
proof -
  let ?P = "[10, 20, 30, 10, 20, 30, 200, 100, 0] :: byte list"
  have e: "qoi_encode ?P d_1x3_rgb =
     Inr [0x71, 0x6f, 0x69, 0x66, 0, 0, 0, 1, 0, 0, 0, 3, 3, 1,
          0xfe, 10, 20, 30, 0xc0, 0xfe, 200, 100, 0, 0, 0, 0, 0, 0, 0, 0, 0]"
    by code_simp
  have "\<exists>enc. qoi_encode ?P d_1x3_rgb = Inr enc \<and> qoi_decode enc 3 = Inr (?P, d_1x3_rgb)"
    by (rule roundtrip_rgb) (simp_all add: d_1x3_rgb_def)
  with e show ?thesis by simp
qed

text \<open>
  C2, as amended: a 3-channel buffer (descriptor as for C4), encoded and then decoded
  with 4 output channels, gives pixels with the r, g, b of the input and alpha 0 at every pixel
  position: the encoder never sets \<^verbatim>\<open>px.rgba.a\<close> for 3-channel input, so alpha stays at
  its initial 0 in the encoder and in the decoder.
\<close>

theorem rgb_decoded_as_rgba:
  assumes "channels desc = 3" "width desc \<noteq> 0" "height desc \<noteq> 0" "colorspace desc \<le> 2"
    and "length P = unat (width desc) * unat (height desc) * 3"
    and "unat (width desc) * unat (height desc) * 4 + 14 + 8 < 2 ^ 31"
  shows "\<exists>enc out. qoi_encode P desc = Inr enc \<and> qoi_decode enc 4 = Inr (out, desc) \<and>
           length out = unat (width desc) * unat (height desc) * 4 \<and>
           (\<forall>i < unat (width desc) * unat (height desc).
              out ! (4 * i + 0) = P ! (3 * i + 0) \<and> out ! (4 * i + 1) = P ! (3 * i + 1) \<and>
              out ! (4 * i + 2) = P ! (3 * i + 2) \<and> out ! (4 * i + 3) = 0)"
proof -
  have c: "unat (channels desc) = 3" using assms(1) by simp
  have "\<exists>enc. qoi_encode P desc = Inr enc \<and>
           qoi_decode enc 4 =
             Inr (concat (map (px_out 4) (to_pixels (unat (channels desc)) 0 P)), desc)"
    using assms(1-6) fits_3_of_4 [OF assms(6)] fits_4_of_4 [OF assms(6)]
    by (intro roundtrip_general) (simp_all add: c)
  then obtain enc where enc: "qoi_encode P desc = Inr enc"
    "qoi_decode enc 4 = Inr (concat (map (px_out 4) (rgb_pixels 0 P)), desc)"
    unfolding c to_pixels_def by auto
  from rgb_pixels_widened [OF assms(5), of 0] enc show ?thesis by blast
qed

theorem rgb_decoded_as_rgba_witness:
  "qoi_encode [10, 20, 30, 10, 20, 30, 200, 100, 0] d_1x3_rgb =
     Inr [0x71, 0x6f, 0x69, 0x66, 0, 0, 0, 1, 0, 0, 0, 3, 3, 1,
          0xfe, 10, 20, 30, 0xc0, 0xfe, 200, 100, 0, 0, 0, 0, 0, 0, 0, 0, 0] \<and>
   (\<exists>out. qoi_decode [0x71, 0x6f, 0x69, 0x66, 0, 0, 0, 1, 0, 0, 0, 3, 3, 1,
          0xfe, 10, 20, 30, 0xc0, 0xfe, 200, 100, 0, 0, 0, 0, 0, 0, 0, 0, 0] 4 =
            Inr (out, d_1x3_rgb) \<and>
          length out = 12 \<and> out ! 3 = 0 \<and> out ! 7 = 0 \<and> out ! 11 = 0)"
proof -
  let ?P = "[10, 20, 30, 10, 20, 30, 200, 100, 0] :: byte list"
  have e: "qoi_encode ?P d_1x3_rgb =
     Inr [0x71, 0x6f, 0x69, 0x66, 0, 0, 0, 1, 0, 0, 0, 3, 3, 1,
          0xfe, 10, 20, 30, 0xc0, 0xfe, 200, 100, 0, 0, 0, 0, 0, 0, 0, 0, 0]"
    by code_simp
  have m: "unat (width d_1x3_rgb) * unat (height d_1x3_rgb) = 3"
    by (simp add: d_1x3_rgb_def)
  have "\<exists>enc out. qoi_encode ?P d_1x3_rgb = Inr enc \<and> qoi_decode enc 4 = Inr (out, d_1x3_rgb) \<and>
           length out = unat (width d_1x3_rgb) * unat (height d_1x3_rgb) * 4 \<and>
           (\<forall>i < unat (width d_1x3_rgb) * unat (height d_1x3_rgb).
              out ! (4 * i + 0) = ?P ! (3 * i + 0) \<and> out ! (4 * i + 1) = ?P ! (3 * i + 1) \<and>
              out ! (4 * i + 2) = ?P ! (3 * i + 2) \<and> out ! (4 * i + 3) = 0)"
    by (rule rgb_decoded_as_rgba) (simp_all add: d_1x3_rgb_def)
  then obtain out where out:
    "qoi_decode [0x71, 0x6f, 0x69, 0x66, 0, 0, 0, 1, 0, 0, 0, 3, 3, 1,
          0xfe, 10, 20, 30, 0xc0, 0xfe, 200, 100, 0, 0, 0, 0, 0, 0, 0, 0, 0] 4 =
            Inr (out, d_1x3_rgb)"
    "length out = 12"
    "\<forall>i < 3. out ! (4 * i + 3) = 0"
    unfolding m e by auto
  have "(0 :: nat) < 3" "(1 :: nat) < 3" "(2 :: nat) < 3" by simp_all
  with out(3) have "out ! (4 * 0 + 3) = 0" "out ! (4 * 1 + 3) = 0" "out ! (4 * 2 + 3) = 0"
    by blast+
  then have "out ! 3 = 0 \<and> out ! 7 = 0 \<and> out ! 11 = 0" by simp
  with e out(1,2) show ?thesis by blast
qed

lemma enc_chunks_huge3: "enc_chunks data d_huge3 = []"
  by (simp add: enc_chunks_def enc_px_len_def d_huge3_def enc_loop_done)

lemma encode_huge3:
  "qoi_encode data d_huge3 =
     Inr [0x71, 0x6f, 0x69, 0x66, 0, 1, 0, 0, 0, 1, 0, 0, 3, 0, 0, 0, 0, 0, 0, 0, 0, 0]"
proof -
  have h: "enc_header d_huge3 = [0x71, 0x6f, 0x69, 0x66, 0, 1, 0, 0, 0, 1, 0, 0, 3, 0]"
    by code_simp
  have v: "\<not> (width d_huge3 = 0 \<or> height d_huge3 = 0 \<or> channels d_huge3 < 3 \<or>
               channels d_huge3 > 4 \<or> colorspace d_huge3 > 2)"
    by (simp add: d_huge3_def)
  have m: "max_size d_huge3 = 22"
    by (simp add: max_size_def d_huge3_def)
  show ?thesis
    unfolding qoi_encode_def enc_bytes_def m using v
    by (simp add: h enc_chunks_huge3 padding_bytes)
qed

text \<open>
  C4 fails as stated where the pixel count overflows 32 bits: the same 65536 x 65536
  image with 3 channels.
\<close>

theorem roundtrip3_fails_on_overflow:
  "length (replicate 12884901888 (0 :: byte)) = unat (width d_huge3) * unat (height d_huge3) * 3 \<and>
   qoi_encode (replicate 12884901888 0) d_huge3 =
     Inr [0x71, 0x6f, 0x69, 0x66, 0, 1, 0, 0, 0, 1, 0, 0, 3, 0, 0, 0, 0, 0, 0, 0, 0, 0] \<and>
   qoi_decode [0x71, 0x6f, 0x69, 0x66, 0, 1, 0, 0, 0, 1, 0, 0, 3, 0, 0, 0, 0, 0, 0, 0, 0, 0] 3 =
     Inr ([], d_huge3) \<and>
   [] \<noteq> replicate 12884901888 (0 :: byte)"
proof -
  have "qoi_decode [0x71, 0x6f, 0x69, 0x66, 0, 1, 0, 0, 0, 1, 0, 0, 3, 0, 0, 0, 0, 0, 0, 0, 0, 0] 3 =
     Inr ([], d_huge3)"
    by code_simp
  moreover have "unat (width d_huge3) * unat (height d_huge3) * 3 = 12884901888"
    by (simp add: d_huge3_def)
  ultimately show ?thesis
    by (simp add: encode_huge3)
qed

section \<open>Runs of zero bytes in lists\<close>

lemma sublist_zeros_split:
  assumes "sublist (replicate n (0 :: byte)) (as @ c # bs)" "c \<noteq> 0"
  shows "sublist (replicate n 0) as \<or> sublist (replicate n 0) bs"
proof -
  let ?z = "replicate n (0 :: byte)"
  have c: "c \<notin> set ?z" using assms(2) by auto
  from assms(1) consider "sublist ?z as" | "sublist ?z (c # bs)"
    | xs1 xs2 where "?z = xs1 @ xs2" "suffix xs1 as" "prefix xs2 (c # bs)"
    unfolding sublist_append by blast
  then show ?thesis
  proof cases
    case 1
    then show ?thesis ..
  next
    case 2
    then consider "prefix ?z (c # bs)" | "sublist ?z bs"
      unfolding sublist_Cons_right by blast
    then show ?thesis
    proof cases
      case 1
      show ?thesis
      proof (cases ?z)
        case Nil
        then show ?thesis by simp
      next
        case (Cons z zs)
        with 1 have "z = c" by simp
        with Cons c show ?thesis by (metis list.set_intros(1))
      qed
    next
      case 2
      then show ?thesis ..
    qed
  next
    case 3
    show ?thesis
    proof (cases xs2)
      case Nil
      with 3 have "suffix ?z as" by simp
      then show ?thesis by (simp add: suffix_imp_sublist)
    next
      case (Cons x xs)
      with 3(3) have "x = c" by simp
      then have "c \<in> set ?z" unfolding 3(1) Cons by simp
      with c show ?thesis by simp
    qed
  qed
qed

lemma no_zeros_chunk:
  assumes "\<not> sublist (replicate 8 (0 :: byte)) acc" "c \<noteq> 0" "length payload < 8"
  shows "\<not> sublist (replicate 8 0) (acc @ c # payload)"
proof
  assume "sublist (replicate 8 0) (acc @ c # payload)"
  from sublist_zeros_split [OF this assms(2)] assms(1)
  have "sublist (replicate 8 (0 :: byte)) payload" by simp
  from sublist_length_le [OF this] assms(3) show False by simp
qed

lemma suffix_zeros_chunk:
  assumes "c \<noteq> (0 :: byte)" "length payload < n"
  shows "\<not> suffix (replicate n 0) (acc @ c # payload)"
proof
  let ?z = "replicate n (0 :: byte)"
  have c: "c \<notin> set ?z" using assms(1) by auto
  assume "suffix ?z (acc @ c # payload)"
  then consider "suffix ?z (c # payload)" | xs' where "?z = xs' @ c # payload"
    unfolding suffix_append by blast
  then show False
  proof cases
    case 1
    then consider "?z = c # payload" | "suffix ?z payload"
      unfolding suffix_Cons by blast
    then show False
    proof cases
      case 1
      then have "c \<in> set ?z" by (metis list.set_intros(1))
      with c show False by simp
    next
      case 2
      from suffix_length_le [OF this] assms(2) show False by simp
    qed
  next
    case 2
    then have "c \<in> set ?z" by (metis in_set_conv_decomp)
    with c show False by simp
  qed
qed

lemma replicate_snoc: "replicate (Suc n) x = replicate n x @ [x]"
  by (simp add: replicate_append_same)

lemma suffix_zeros_snoc:
  "suffix (replicate (Suc n) (0 :: byte)) (acc @ [0]) \<longleftrightarrow> suffix (replicate n 0) acc"
  unfolding replicate_snoc by (rule snoc_suffix_snoc [THEN trans]) simp

lemma no_zeros_snoc_zero:
  assumes "\<not> sublist (replicate 8 (0 :: byte)) acc" "\<not> suffix (replicate 7 0) acc"
  shows "\<not> sublist (replicate 8 0) (acc @ [0])"
proof -
  have "(8 :: nat) = Suc 7" by simp
  then have "suffix (replicate 8 (0 :: byte)) (acc @ [0]) \<longleftrightarrow> suffix (replicate 7 0) acc"
    by (simp only: suffix_zeros_snoc)
  then show ?thesis using assms unfolding sublist_snoc by blast
qed

lemma suffix_zeros_mono:
  assumes "\<not> suffix (replicate n (0 :: byte)) acc" "n \<le> k"
  shows "\<not> suffix (replicate k 0) acc"
proof
  assume s: "suffix (replicate k 0) acc"
  have "replicate k (0 :: byte) = replicate (k - n) 0 @ replicate n 0"
    using assms(2) by (simp add: replicate_add [symmetric])
  with s have "suffix (replicate n 0) acc" by (metis suffix_appendD)
  with assms(1) show False by simp
qed

section \<open>The first byte of a chunk\<close>

lemma or_c0_nonzero: "0xc0 OR x \<noteq> (0 :: byte)"
proof
  assume "0xc0 OR x = 0"
  then have "(0xc0 OR x) AND 0xc0 = (0 :: byte)" by simp
  then show False by (simp add: bit.conj_disj_distrib2)
qed

lemma or_40_nonzero: "0x40 OR x \<noteq> (0 :: byte)"
proof
  assume "0x40 OR x = 0"
  then have "(0x40 OR x) AND 0x40 = (0 :: byte)" by simp
  then show False by (simp add: bit.conj_disj_distrib2)
qed

lemma or_80_nonzero: "0x80 OR x \<noteq> (0 :: byte)"
proof
  assume "0x80 OR x = 0"
  then have "(0x80 OR x) AND 0x80 = (0 :: byte)" by simp
  then show False by (simp add: bit.conj_disj_distrib2)
qed

lemma enc_delta_bytes:
  "\<exists>c payload. chunk_bytes (enc_delta px px_prev) = c # payload \<and> c \<noteq> 0 \<and> length payload \<le> 4"
  using or_40_nonzero or_80_nonzero
  by (auto simp: enc_delta_def Let_def)

lemma run_bytes:
  "\<exists>c. chunk_bytes (OP_RUN k) = [c] \<and> c \<noteq> 0"
  using or_c0_nonzero by simp

lemma index_bytes_nonzero:
  assumes "pos < 64" "pos \<noteq> 0"
  shows "\<exists>c. chunk_bytes (OP_INDEX pos) = [c] \<and> c \<noteq> 0"
proof -
  have "unat (0x00 OR of_nat pos :: byte) = pos" using index_byte(2) [OF assms(1)] .
  then have "(0x00 OR of_nat pos :: byte) \<noteq> 0" using assms(2) by auto
  then show ?thesis by simp
qed

lemma index_bytes_zero: "chunk_bytes (OP_INDEX 0) = [0]"
  by simp

section \<open>No run of eight zero bytes among the chunks\<close>

lemma zero_safe_nonzero_chunk:
  assumes "\<not> sublist (replicate 8 (0 :: byte)) acc" "c \<noteq> 0" "length payload \<le> 4"
    and "length idx = 64" "idx ! (QOI_COLOR_HASH px mod 64) = px"
    and "e_index s' = idx" "e_px_prev s' = px"
  shows "zero_safe (acc @ c # payload) s'"
proof -
  have "\<not> sublist (replicate 8 0) (acc @ c # payload)"
    using assms(1-3) by (intro no_zeros_chunk) auto
  moreover have "\<not> suffix (replicate n 0) (acc @ c # payload)" if "5 \<le> n" for n
    using assms(2,3) that by (intro suffix_zeros_chunk) auto
  ultimately show ?thesis
    using assms(4-7) by (simp add: zero_safe_def)
qed

lemma enc_px_zero_safe:
  assumes "zero_safe acc s"
  shows "zero_safe (acc @ concat (map chunk_bytes (fst (enc_px at_end px s))))
           (snd (enc_px at_end px s))"
proof (cases "px = e_px_prev s")
  case True
  show ?thesis
  proof (cases "e_run s + 1 = 62 \<or> at_end")
    case flush: True
    obtain c where c: "chunk_bytes (OP_RUN (e_run s + 1)) = [c]" "c \<noteq> 0"
      using run_bytes by blast
    have "zero_safe (acc @ c # []) (s\<lparr>e_run := 0, e_px_prev := px\<rparr>)"
      using assms True c(2)
      by (intro zero_safe_nonzero_chunk [where idx = "e_index s" and px = px])
        (simp_all add: zero_safe_def)
    then show ?thesis
      by (simp add: enc_px_repeat_flush [OF True flush] c(1) del: chunk_bytes.simps)
  next
    case False
    have "zero_safe acc (s\<lparr>e_run := e_run s + 1, e_px_prev := px\<rparr>)"
      using assms True by (simp add: zero_safe_def)
    then show ?thesis
      by (simp add: enc_px_repeat_cont [OF True False])
  qed
next
  case False
  let ?h = "QOI_COLOR_HASH px mod 64"
  let ?n0 = "if QOI_COLOR_HASH (e_px_prev s) mod 64 = 0 then 6 else 5 :: nat"
  let ?fl = "concat (map chunk_bytes (if 0 < e_run s then [OP_RUN (e_run s)] else []))"
  have inv: "length (e_index s) = 64"
    "e_index s ! (QOI_COLOR_HASH (e_px_prev s) mod 64) = e_px_prev s"
    using assms by (simp_all add: zero_safe_def)
  have h: "?h < 64" by simp
  have fl: "\<not> sublist (replicate 8 0) (acc @ ?fl) \<and> \<not> suffix (replicate ?n0 0) (acc @ ?fl)"
  proof (cases "0 < e_run s")
    case True
    obtain c where c: "chunk_bytes (OP_RUN (e_run s)) = [c]" "c \<noteq> 0"
      using run_bytes by blast
    have "\<not> sublist (replicate 8 0) (acc @ c # [])"
      using assms c(2) by (intro no_zeros_chunk) (simp_all add: zero_safe_def)
    moreover have "\<not> suffix (replicate ?n0 0) (acc @ c # [])"
      using c(2) by (intro suffix_zeros_chunk) auto
    ultimately show ?thesis using True c(1) by (simp del: chunk_bytes.simps)
  next
    case False
    then show ?thesis using assms by (simp add: zero_safe_def)
  qed
  show ?thesis
  proof (cases "e_index s ! ?h = px")
    case hit: True
    let ?s' = "s\<lparr>e_run := 0, e_px_prev := px\<rparr>"
    have res: "enc_px at_end px s =
        ((if 0 < e_run s then [OP_RUN (e_run s)] else []) @ [OP_INDEX ?h], ?s')"
      by (rule enc_px_index [OF False hit])
    have "zero_safe ((acc @ ?fl) @ chunk_bytes (OP_INDEX ?h)) ?s'"
    proof (cases "?h = 0")
      case True
      have "QOI_COLOR_HASH (e_px_prev s) mod 64 \<noteq> 0"
      proof
        assume "QOI_COLOR_HASH (e_px_prev s) mod 64 = 0"
        then have "e_index s ! ?h = e_px_prev s" using inv(2) True by simp
        with hit False show False by simp
      qed
      then have n5: "\<not> suffix (replicate 5 0) (acc @ ?fl)" using fl by simp
      then have "\<not> suffix (replicate 7 0) (acc @ ?fl)" by (rule suffix_zeros_mono) simp
      with fl have A: "\<not> sublist (replicate 8 0) ((acc @ ?fl) @ [0])"
        by (intro no_zeros_snoc_zero) blast+
      have "(6 :: nat) = Suc 5" by simp
      then have B: "\<not> suffix (replicate 6 0) ((acc @ ?fl) @ [0])"
        using n5 by (simp only: suffix_zeros_snoc not_False_eq_True)
      have cb: "chunk_bytes (OP_INDEX ?h) = [0]" using True by simp
      have hp: "(if QOI_COLOR_HASH (e_px_prev ?s') mod 64 = 0 then 6 else 5) = (6 :: nat)"
        using True by simp
      have ix: "length (e_index ?s') = 64"
        "e_index ?s' ! (QOI_COLOR_HASH (e_px_prev ?s') mod 64) = e_px_prev ?s'"
        using inv(1) hit by simp_all
      show ?thesis
        unfolding zero_safe_def cb hp using A B ix by blast
    next
      case nz: False
      obtain c where c: "chunk_bytes (OP_INDEX ?h) = [c]" "c \<noteq> 0"
        using index_bytes_nonzero [OF h nz] by blast
      have "zero_safe ((acc @ ?fl) @ c # []) ?s'"
        using fl c(2) inv(1) hit
        by (intro zero_safe_nonzero_chunk [where idx = "e_index s" and px = px]) simp_all
      then show ?thesis by (simp only: c(1))
    qed
    then show ?thesis by (simp add: res)
  next
    case miss: False
    let ?s' = "s\<lparr>e_index := (e_index s)[?h := px], e_run := 0, e_px_prev := px\<rparr>"
    have res: "enc_px at_end px s =
        ((if 0 < e_run s then [OP_RUN (e_run s)] else []) @ [enc_delta px (e_px_prev s)], ?s')"
      by (rule enc_px_delta [OF False miss])
    obtain c payload where c: "chunk_bytes (enc_delta px (e_px_prev s)) = c # payload"
      "c \<noteq> 0" "length payload \<le> 4"
      using enc_delta_bytes by blast
    have "zero_safe ((acc @ ?fl) @ c # payload) ?s'"
      using fl c(2,3) inv(1) h
      by (intro zero_safe_nonzero_chunk [where idx = "(e_index s)[?h := px]" and px = px])
        simp_all
    then show ?thesis by (simp add: res c(1))
  qed
qed

lemma enc_loop_zero_safe:
  "zero_safe acc s \<Longrightarrow>
   \<not> sublist (replicate 8 0)
       (acc @ concat (map chunk_bytes (enc_loop pixels chans px_len px_pos s)))"
proof (induction pixels chans px_len px_pos s arbitrary: acc rule: enc_loop.induct)
  case (1 pixels chans px_len px_pos s)
  show ?case
  proof (cases "int px_pos < px_len \<and> 0 < chans")
    case True
    let ?px = "read_px pixels chans px_pos (e_px_prev s)"
    let ?res = "enc_px (int px_pos = px_len - int chans) ?px s"
    have "zero_safe (acc @ concat (map chunk_bytes (fst ?res))) (snd ?res)"
      using "1.prems" by (rule enc_px_zero_safe)
    from "1.IH" [OF True refl refl this] True show ?thesis
      by (simp add: enc_loop_step)
  next
    case False
    with "1.prems" show ?thesis by (simp add: enc_loop_done zero_safe_def)
  qed
qed

section \<open>The trailer\<close>

lemma sublist_same_length:
  assumes "sublist xs ys" "length ys \<le> length xs"
  shows "ys = xs"
proof -
  from assms(1) obtain ps ss where e: "ys = ps @ xs @ ss" by (auto simp: sublist_def)
  with assms(2) have "ps = []" "ss = []" by auto
  with e show ?thesis by simp
qed

lemma qoi_write_32_zero:
  assumes "qoi_write_32 v = [0, 0, 0, 0]"
  shows "v = 0"
proof -
  have "qoi_read_32 ([] @ qoi_write_32 v @ []) (length ([] :: byte list)) = Some (v, length ([] :: byte list) + 4)"
    by (rule qoi_read_32_write)
  moreover have "qoi_read_32 [0, 0, 0, 0] 0 = Some (0, 4)"
    by (simp add: qoi_read_32_def rd_def)
  ultimately show ?thesis using assms by simp
qed

lemma magic_bytes: "qoi_write_32 QOI_MAGIC = [0x71, 0x6f, 0x69, 0x66]"
  by code_simp

lemma replicate_8_bytes: "replicate 8 (0 :: byte) = [0, 0, 0, 0] @ [0, 0, 0, 0]"
  by code_simp

lemma no_zeros_dims:
  assumes "w \<noteq> 0"
  shows "\<not> sublist (replicate 8 0) (qoi_write_32 w @ qoi_write_32 h)"
proof
  assume "sublist (replicate 8 0) (qoi_write_32 w @ qoi_write_32 h)"
  then have "qoi_write_32 w @ qoi_write_32 h = replicate 8 0"
    by (rule sublist_same_length) (simp add: length_qoi_write_32)
  then have "qoi_write_32 w @ qoi_write_32 h = [0, 0, 0, 0] @ [0, 0, 0, 0]"
    by (simp only: replicate_8_bytes)
  then have "qoi_write_32 w = [0, 0, 0, 0]"
    by (subst (asm) append_eq_append_conv) (simp_all add: length_qoi_write_32)
  from qoi_write_32_zero [OF this] assms show False by simp
qed

lemma header_zero_safe:
  assumes "width desc \<noteq> 0" "channels desc \<noteq> 0"
  shows "zero_safe (enc_header desc) enc_init"
proof -
  let ?W = "qoi_write_32 (width desc)" and ?H = "qoi_write_32 (height desc)"
  let ?z = "replicate 8 (0 :: byte)"
  have hdr: "enc_header desc = [0x71, 0x6f, 0x69] @ 0x66 # ((?W @ ?H) @ channels desc # [colorspace desc])"
    by (simp add: enc_header_def magic_bytes)
  have hdr2: "enc_header desc = ([0x71, 0x6f, 0x69, 0x66] @ ?W @ ?H) @ channels desc # [colorspace desc]"
    by (simp add: enc_header_def magic_bytes)
  have a: "\<not> sublist ?z ((?W @ ?H) @ channels desc # [colorspace desc])"
  proof
    assume "sublist ?z ((?W @ ?H) @ channels desc # [colorspace desc])"
    from sublist_zeros_split [OF this assms(2)] no_zeros_dims [OF assms(1)]
    have "sublist ?z [colorspace desc]" by blast
    from sublist_length_le [OF this] show False by simp
  qed
  have A: "\<not> sublist ?z (enc_header desc)"
  proof
    assume "sublist ?z (enc_header desc)"
    then have "sublist ?z ([0x71, 0x6f, 0x69] @ 0x66 # ((?W @ ?H) @ channels desc # [colorspace desc]))"
      by (simp only: hdr)
    from sublist_zeros_split [OF this] a have "sublist ?z [0x71, 0x6f, 0x69]" by simp
    from sublist_length_le [OF this] show False by simp
  qed
  have B: "\<not> suffix (replicate 6 0) (enc_header desc)"
    unfolding hdr2 using assms(2) by (intro suffix_zeros_chunk) simp_all
  have h0: "(if QOI_COLOR_HASH (e_px_prev enc_init) mod 64 = 0 then 6 else 5) = (6 :: nat)"
    by (simp add: enc_init_def QOI_COLOR_HASH_def)
  have ix: "length (e_index enc_init) = 64"
    "e_index enc_init ! (QOI_COLOR_HASH (e_px_prev enc_init) mod 64) = e_px_prev enc_init"
    by (simp_all add: enc_init_def QOI_COLOR_HASH_def)
  show ?thesis
    unfolding zero_safe_def h0 using A B ix by blast
qed

text \<open>
  C5 fails as stated: the output can end with more than eight zero bytes. For the 1 x 2
  RGBA image with the pixels (1, 0, 0, 0) and (0, 0, 0, 0) the chunks are a difference
  chunk \<open>0x7a\<close> and an index chunk for slot 0, the byte \<open>0x00\<close>; with the padding the
  output ends with nine zero bytes.
\<close>

theorem trailer_of_nine_zeros:
  "qoi_encode [1, 0, 0, 0, 0, 0, 0, 0] d_1x2 =
     Inr [0x71, 0x6f, 0x69, 0x66, 0, 0, 0, 1, 0, 0, 0, 2, 4, 0,
          0x7a, 0,
          0, 0, 0, 0, 0, 0, 0, 0] \<and>
   length [0x71, 0x6f, 0x69, 0x66, 0, 0, 0, 1, 0, 0, 0, 2, 4, 0,
           0x7a, 0,
           0, 0, 0, 0, 0, 0, 0, 0 :: byte] = 24 \<and>
   drop (24 - 9) [0x71, 0x6f, 0x69, 0x66, 0, 0, 0, 1, 0, 0, 0, 2, 4, 0,
                  0x7a, 0,
                  0, 0, 0, 0, 0, 0, 0, 0 :: byte] = replicate 9 0"
  by code_simp

text \<open>
  C5, as amended: whenever the encoder returns an output, its last eight bytes are zero
  (the padding), the bytes before them are the header and the chunks, and these contain
  no eight consecutive zero bytes. (The chunks may end with zero bytes of their own, so
  the zero bytes at the end of the output can be more than eight.)
\<close>

theorem encoder_trailer:
  assumes "qoi_encode data desc = Inr out"
  shows "8 \<le> length out \<and>
         drop (length out - 8) out = replicate 8 0 \<and>
         take (length out - 8) out =
           enc_header desc @ concat (map chunk_bytes (enc_chunks data desc)) \<and>
         \<not> sublist (replicate 8 0) (take (length out - 8) out)"
proof -
  let ?body = "enc_header desc @ concat (map chunk_bytes (enc_chunks data desc))"
  from qoi_encode_Inr [OF assms] have valid: "width desc \<noteq> 0" "\<not> channels desc < 3"
    and out: "out = enc_header desc @ concat (map chunk_bytes (enc_chunks data desc)) @
                    replicate QOI_PADDING 0"
    by (simp_all add: enc_bytes_def)
  have "channels desc \<noteq> 0" using valid(2) by auto
  from header_zero_safe [OF valid(1) this]
  have nz: "\<not> sublist (replicate 8 0) ?body"
    unfolding enc_chunks_def by (rule enc_loop_zero_safe)
  have o: "out = ?body @ replicate 8 0"
    by (simp add: out QOI_PADDING_def)
  have l: "length out - 8 = length ?body" unfolding o by simp
  have "take (length out - 8) out = ?body" "drop (length out - 8) out = replicate 8 0"
    unfolding l unfolding o by simp_all
  moreover have "8 \<le> length out" unfolding o by simp
  ultimately show ?thesis using nz by simp
qed

theorem encoder_trailer_witness:
  "qoi_encode [1, 0, 0, 0, 0, 0, 0, 0, 0, 0, 0, 7] d_1x3 =
     Inr [0x71, 0x6f, 0x69, 0x66, 0, 0, 0, 1, 0, 0, 0, 3, 4, 0,
          0x7a, 0, 0xff, 0, 0, 0, 7,
          0, 0, 0, 0, 0, 0, 0, 0] \<and>
   drop 21 [0x71, 0x6f, 0x69, 0x66, 0, 0, 0, 1, 0, 0, 0, 3, 4, 0,
            0x7a, 0, 0xff, 0, 0, 0, 7,
            0, 0, 0, 0, 0, 0, 0, 0 :: byte] = replicate 8 0 \<and>
   \<not> sublist (replicate 8 0)
       (take 21 [0x71, 0x6f, 0x69, 0x66, 0, 0, 0, 1, 0, 0, 0, 3, 4, 0,
                 0x7a, 0, 0xff, 0, 0, 0, 7,
                 0, 0, 0, 0, 0, 0, 0, 0 :: byte])"
proof -
  let ?out = "[0x71, 0x6f, 0x69, 0x66, 0, 0, 0, 1, 0, 0, 0, 3, 4, 0,
               0x7a, 0, 0xff, 0, 0, 0, 7,
               0, 0, 0, 0, 0, 0, 0, 0] :: byte list"
  have e: "qoi_encode [1, 0, 0, 0, 0, 0, 0, 0, 0, 0, 0, 7] d_1x3 = Inr ?out"
    by code_simp
  have l: "length ?out - 8 = 21" by simp
  from encoder_trailer [OF e] e show ?thesis unfolding l by blast
qed

end
